theory Spec2Isabelle
  imports Main "HOL-Library.Word"
begin

unbundle bit_operations_syntax

section \<open>Machine types\<close>

text \<open>
  The firmware runs on an 8-bit AVR: \<^verbatim>\<open>uint8_t\<close> is an 8-bit word, \<^verbatim>\<open>uint16_t\<close> (and
  \<^verbatim>\<open>unsigned int\<close>) a 16-bit word. Loop counters that never overflow are natural numbers and
  are converted with \<open>of_nat\<close> where the code uses them as addresses.
\<close>

type_synonym u8 = "8 word"
type_synonym u16 = "16 word"

section \<open>common.h / common.cpp: chip table, patterns, helpers\<close>

text \<open>The RAM type numbers are the \<^verbatim>\<open>#define T_...\<close> constants of common.h (4.1.0).\<close>

definition T_4164 :: nat where "T_4164 = 0"
definition T_41256 :: nat where "T_41256 = 1"
definition T_41257 :: nat where "T_41257 = 2"
definition T_4416 :: nat where "T_4416 = 3"
definition T_4464 :: nat where "T_4464 = 4"
definition T_514256 :: nat where "T_514256 = 5"
definition T_514258 :: nat where "T_514258 = 6"
definition T_514400 :: nat where "T_514400 = 7"
definition T_514402 :: nat where "T_514402 = 8"
definition T_411000 :: nat where "T_411000 = 9"
definition T_4116 :: nat where "T_4116 = 10"
definition T_4816 :: nat where "T_4816 = 11"
definition T_4027 :: nat where "T_4027 = 12"
definition T_4532 :: nat where "T_4532 = 13"
definition T_3732 :: nat where "T_3732 = 14"

lemmas T_defs = T_4164_def T_41256_def T_41257_def T_4416_def T_4464_def T_514256_def
  T_514258_def T_514400_def T_514402_def T_411000_def T_4116_def T_4816_def T_4027_def
  T_4532_def T_3732_def

definition RAM_FLAG_STATIC_COLUMN :: u8 where "RAM_FLAG_STATIC_COLUMN = push_bit 0 1"
definition RAM_FLAG_NIBBLE_MODE :: u8 where "RAM_FLAG_NIBBLE_MODE = push_bit 1 1"
definition RAM_FLAG_SMALL_TYPE :: u8 where "RAM_FLAG_SMALL_TYPE = push_bit 2 1"

record RAM_Definition =
  name :: string
  mSRetention :: nat
  delayRows :: nat
  rows :: nat
  columns :: nat
  flags :: u8
  delays :: "nat list"
  writeTime :: nat

definition mk_ram ::
  "string \<Rightarrow> nat \<Rightarrow> nat \<Rightarrow> nat \<Rightarrow> nat \<Rightarrow> u8 \<Rightarrow> nat list \<Rightarrow> nat \<Rightarrow> RAM_Definition" where
  "mk_ram n ret dr r c f ds wt =
     \<lparr>name = n, mSRetention = ret, delayRows = dr, rows = r, columns = c, flags = f,
      delays = ds, writeTime = wt\<rparr>"

text \<open>
  The table \<^verbatim>\<open>ramTypes[]\<close> of common.cpp (4.0.5), in its order; \<^verbatim>\<open>ramTypes[type]\<close> is
  \<open>ramTypes ! type\<close>. Entries 13 and 14 are the ones the type numbers \<open>T_4532\<close> and \<open>T_3732\<close>
  of common.h select.
\<close>

definition ramTypes :: "RAM_Definition list" where
  "ramTypes =
    [mk_ram ''4164 64Kx1'' 4 2 256 256 RAM_FLAG_SMALL_TYPE [62, 61, 20, 20, 20, 20] 39,
     mk_ram ''41256 256Kx1'' 4 1 512 512 0 [125, 41, 41, 41, 41, 41] 75,
     mk_ram ''41257 256Kx1-NM'' 4 0 512 512 RAM_FLAG_NIBBLE_MODE [0, 0, 0, 0, 0, 0] 0,
     mk_ram ''4416 16Kx4'' 4 4 256 64 RAM_FLAG_SMALL_TYPE [30, 30, 30, 30, 11, 11] 21,
     mk_ram ''4464 64Kx4'' 4 1 256 256 0 [122, 48, 48, 48, 48, 48] 77,
     mk_ram ''514256 256Kx4'' 4 2 512 512 RAM_FLAG_SMALL_TYPE [69, 68, 27, 27, 27, 27] 31,
     mk_ram ''514258 256Kx4-SC'' 4 2 512 512 (RAM_FLAG_STATIC_COLUMN OR RAM_FLAG_SMALL_TYPE)
       [69, 68, 27, 27, 27, 27] 31,
     mk_ram ''514400 1Mx4'' 16 5 1024 1024 0 [98, 98, 98, 98, 98, 16] 62,
     mk_ram ''514402 1Mx4-SC'' 16 5 1024 1024 RAM_FLAG_STATIC_COLUMN [99, 98, 98, 98, 98, 14] 62,
     mk_ram ''411000 1Mx1'' 8 1 1024 1024 0 [244, 135, 135, 135, 135, 135] 255,
     mk_ram ''4116 16Kx1'' 2 2 128 128 0 [30, 30, 6, 6, 6, 6] 24,
     mk_ram ''4816 16Kx1'' 2 2 128 128 0 [30, 30, 7, 7, 7, 7] 24,
     mk_ram ''4027 4Kx1'' 2 2 64 64 0 [40, 40, 27, 27, 27, 27] 12,
     mk_ram ''4532/3732-L 32Kx1'' 2 1 128 256 RAM_FLAG_SMALL_TYPE [54, 5, 5, 5, 5, 5] 50,
     mk_ram ''4532/3732-H 32Kx1'' 2 1 128 256 RAM_FLAG_SMALL_TYPE [54, 5, 5, 5, 5, 5] 50]"

definition pattern :: "u8 list" where
  "pattern = [0x00, 0xff, 0xaa, 0x55, 0xaa, 0x55]"

text \<open>\<^verbatim>\<open>countBits\<close>: the number of bits needed to represent a value.\<close>

function countBits_loop :: "nat \<Rightarrow> u16 \<Rightarrow> nat" where
  "countBits_loop bits v = (if v \<noteq> 0 then countBits_loop (bits + 1) (drop_bit 1 v) else bits)"
  by pat_completeness auto
termination
proof (relation "measure (\<lambda>(bits, v). unat v)")
  show "wf (measure (\<lambda>(bits, v). unat v))" by simp
next
  fix bits :: nat and v :: u16
  assume "v \<noteq> 0"
  then have "0 < unat v" by (simp add: unat_gt_0)
  then have "unat v div 2 < unat v" by simp
  then show "((bits + 1, drop_bit 1 v), (bits, v)) \<in> measure (\<lambda>(bits, v). unat v)"
    by (simp add: unat_drop_bit_eq drop_bit_eq_div unat_div)
qed

declare countBits_loop.simps [simp del]

definition countBits :: "u16 \<Rightarrow> nat" where
  "countBits v = countBits_loop 0 v"

text \<open>
  \<^verbatim>\<open>rotate_left\<close> is \<^verbatim>\<open>lsl\<close> followed by \<^verbatim>\<open>adc\<close> with zero: bit 7 goes to the carry and the
  carry is added back as bit 0.
\<close>

definition rotate_left :: "u8 \<Rightarrow> u8" where
  "rotate_left val = (let carry = bit val 7; v = push_bit 1 val in v + (if carry then 1 else 0))"

definition mix8 :: "u16 \<Rightarrow> u16 \<Rightarrow> u8" where
  "mix8 col row = (let v = col XOR (row + drop_bit 4 row) in ucast (v XOR drop_bit 8 v))"

subsection \<open>The pseudo-random table\<close>

text \<open>
  \<^verbatim>\<open>uint8_t randomTable[256]\<close> is a list of 256 bytes; both functions take the table and return
  the new one. The loops run over the indices 0..255 and assign one entry each.
\<close>

definition lfsr_step :: "u16 \<Rightarrow> u16" where
  "lfsr_step lfsr = drop_bit 1 lfsr XOR ((- (lfsr AND 1)) AND 0xB400)"

definition random_entry :: "nat \<Rightarrow> u8" where
  "random_entry i =
     (let lfsr = (lfsr_step ^^ 8) (0xACE1 XOR (of_nat i * 0x3D))
      in ucast ((lfsr XOR drop_bit 8 lfsr) AND 0x0F))"

definition generateRandomTable :: "u8 list \<Rightarrow> u8 list" where
  "generateRandomTable randomTable =
     fold (\<lambda>i t. t[i := random_entry i]) [0..<256] randomTable"

definition invertRandomTable :: "u8 list \<Rightarrow> u8 list" where
  "invertRandomTable randomTable =
     fold (\<lambda>i t. t[i := (t ! i AND 0x0F) XOR 0x0F]) [0..<256] randomTable"

text \<open>
  The expected pseudo-random byte for a cell: \<^verbatim>\<open>randomTable[mix8(col, row)]\<close>, as
  \<^verbatim>\<open>writeRow_16Pin\<close> and \<^verbatim>\<open>checkRow_16Pin\<close> compute it.
\<close>

definition expected :: "u8 list \<Rightarrow> u16 \<Rightarrow> u16 \<Rightarrow> u8" where
  "expected randomTable col row = randomTable ! unat (mix8 col row)"

text \<open>
  The table states a test run can reach: the table after \<^verbatim>\<open>generateRandomTable()\<close> (called
  once at start-up on the 256-byte array), and any state reached from there by
  \<^verbatim>\<open>invertRandomTable()\<close>.
\<close>

inductive reachable_table :: "u8 list \<Rightarrow> bool" where
  generated: "length t0 = 256 \<Longrightarrow> reachable_table (generateRandomTable t0)"
| inverted: "reachable_table t \<Longrightarrow> reachable_table (invertRandomTable t)"

section \<open>common.cpp: the error report\<close>

text \<open>
  \<^verbatim>\<open>error(code, error, row = -1, col = -1)\<close> shows the fault and then blinks for ever. The
  model keeps the LED output as a trace of colour changes; the OLED output and the delays are
  left out. The signalling loop is the \<^verbatim>\<open>while (true)\<close> of the source: a function that does
  not return has the value \<open>None\<close>.
\<close>

datatype LedColor = LED_OFF | LED_RED | LED_GREEN | LED_ORANGE







text \<open>
  Inside the test engine a call of \<^verbatim>\<open>error\<close> ends the run: the engine's functions return
  either the call that was made (code, kind, row, column) or the state they leave. The
  16-pin module never passes a row or a column, so both have the default \<open>-1\<close> of the
  declaration in common.h.
\<close>

datatype error_call = ErrorCall (code: u8) (kind: u8) (erow: int) (ecol: int)

definition error2 :: "u8 \<Rightarrow> u8 \<Rightarrow> error_call" where
  "error2 c k = ErrorCall c k (-1) (-1)"

text \<open>Sequencing with early exit: a loop whose body may call \<^verbatim>\<open>error\<close>.\<close>

fun forE :: "'a list \<Rightarrow> ('a \<Rightarrow> 's \<Rightarrow> error_call + 's) \<Rightarrow> 's \<Rightarrow> error_call + 's" where
  "forE [] body s = Inr s"
| "forE (x # xs) body s = (case body x s of Inl e \<Rightarrow> Inl e | Inr s' \<Rightarrow> forE xs body s')"

section \<open>16Pin.cpp: address translation\<close>

text \<open>The bit-extraction macros (4.0.6) and the combined table entry of 3.0.1.\<close>

definition GET_PB :: "u16 \<Rightarrow> u16" where
  "GET_PB a = (a AND 0x0010) OR drop_bit 1 (a AND 0x0008) OR drop_bit 6 (a AND 0x0040)"

definition GET_PC :: "u16 \<Rightarrow> u16" where
  "GET_PC a = push_bit 4 (a AND 0x0001) OR drop_bit 8 (a AND 0x0100)"

definition GET_PD :: "u16 \<Rightarrow> u16" where
  "GET_PD a = drop_bit 1 (a AND 0x0080) OR push_bit 2 (a AND 0x0020)
                OR drop_bit 2 (a AND 0x0004) OR (a AND 0x0002)"

record port_config16_t =
  portb :: u8
  portc :: u8
  portd :: u8

definition MAP_COMBINED :: "u16 \<Rightarrow> port_config16_t" where
  "MAP_COMBINED a =
     \<lparr>portb = ucast ((a AND 0x0010) OR drop_bit 1 (a AND 0x0008) OR drop_bit 6 (a AND 0x0040)),
      portc = ucast (push_bit 4 (a AND 0x0001) OR drop_bit 8 (a AND 0x0100)),
      portd = ucast (drop_bit 1 (a AND 0x0080) OR push_bit 2 (a AND 0x0020)
                OR drop_bit 2 (a AND 0x0004) OR (a AND 0x0002))\<rparr>"

definition lut_combined :: "port_config16_t list" where
  "lut_combined = map (\<lambda>a. MAP_COMBINED (of_nat a)) [0..<512]"

definition lut_16_low_b :: "u8 list" where
  "lut_16_low_b = map (\<lambda>a. ucast (GET_PB (of_nat a))) [0..<32]"
definition lut_16_low_c :: "u8 list" where
  "lut_16_low_c = map (\<lambda>a. ucast (GET_PC (of_nat a))) [0..<32]"
definition lut_16_low_d :: "u8 list" where
  "lut_16_low_d = map (\<lambda>a. ucast (GET_PD (of_nat a))) [0..<32]"

definition high_args :: "u16 list" where
  "high_args = [0, 32, 64, 96, 128, 160, 192, 224, 256, 288, 320, 352, 384, 416, 448, 480]"

definition lut_16_high_b :: "u8 list" where
  "lut_16_high_b = map (\<lambda>a. ucast (GET_PB a)) high_args"
definition lut_16_high_c :: "u8 list" where
  "lut_16_high_c = map (\<lambda>a. ucast (GET_PC a)) high_args"
definition lut_16_high_d :: "u8 list" where
  "lut_16_high_d = map (\<lambda>a. ucast (GET_PD a)) high_args"

text \<open>
  The port values \<^verbatim>\<open>setAddr16_Random\<close> ORs into the three ports for an address: the split
  tables of 4.0.6.
\<close>

definition translate :: "u16 \<Rightarrow> u8 \<times> u8 \<times> u8" where
  "translate a =
     (let idx_low = unat (ucast (a AND 0x1F) :: u8);
          idx_high = unat (ucast (drop_bit 5 a) :: u8)
      in (lut_16_low_b ! idx_low OR lut_16_high_b ! idx_high,
          lut_16_low_c ! idx_low OR lut_16_high_c ! idx_high,
          lut_16_low_d ! idx_low OR lut_16_high_d ! idx_high))"

text \<open>
  The wiring of the socket, from 16Pin.h: A0 = PC4, A1 = PD1, A2 = PD0, A3 = PB2, A4 = PB4,
  A5 = PD7, A6 = PB0, A7 = PD6, A8 = PC0. This is the address the chip sees on its pins, and
  the reverse of the translation.
\<close>

definition reverseTranslate :: "u8 \<times> u8 \<times> u8 \<Rightarrow> u16" where
  "reverseTranslate p =
     (case p of (pb, pc, pd) \<Rightarrow>
        drop_bit 4 (ucast pc AND 0x10) OR (ucast pd AND 0x02) OR push_bit 2 (ucast pd AND 0x01)
        OR push_bit 1 (ucast pb AND 0x04) OR (ucast pb AND 0x10) OR drop_bit 2 (ucast pd AND 0x80)
        OR push_bit 6 (ucast pb AND 0x01) OR push_bit 1 (ucast pd AND 0x40)
        OR push_bit 8 (ucast pc AND 0x01))"

section \<open>The simulated chip and the port registers\<close>

text \<open>
  A simulated DRAM: which internal row and column an address on the pins selects, which
  cells are stuck (a stuck cell reads as its stuck value whatever was written), and whether
  it is a nibble-mode part (a 41257).
\<close>

record chip =
  rdec :: "u16 \<Rightarrow> u16"
  cdec :: "u16 \<Rightarrow> u16"
  stuck :: "u16 \<Rightarrow> u16 \<Rightarrow> bool option"
  nibble :: bool

text \<open>
  The hardware state \<open>hw\<close>: the three output ports and the chip (the row and column
  latched by the strobes, whether the open RAS cycle is a CAS-before-RAS refresh, the data
  output, the cell array, the number of CAS-before-RAS refreshes seen). The program state
  \<open>state\<close> adds the firmware's globals.

  The control lines are RAS = PB1, WE = PB3, CAS = PC3; data in is PC1, data out PC2.
  The chip reacts to the edges the port writes produce:
  \<^item> RAS falling with CAS high latches the row address from the pins; with CAS low it is a
    CAS-before-RAS refresh and no address is taken;
  \<^item> CAS falling inside a RAS cycle latches the column address; with WE low the level of PC1
    is written to the cell, with WE high the cell is read and drives the output, which keeps
    its value until the next read;
  \<^item> on a nibble-mode part only the first CAS of a RAS cycle takes the column address; every
    further CAS steps to the next of the four cells that differ in A8 of the row and A8 of
    the column;
  \<^item> WE falling while RAS and CAS are low writes the level of PC1 to the selected cell.
  A port write that changes address or data pins together with the strobe counts with its new
  value. Time is not modelled: cells keep their value, so the delays, \<^verbatim>\<open>NOP\<close>, \<^verbatim>\<open>cli\<close>/\<^verbatim>\<open>sei\<close>
  and the writes to the data direction registers have no counterpart.
\<close>

record hw =
  PORTB :: u8
  PORTC :: u8
  PORTD :: u8
  row_latch :: u16
  col_latch :: u16
  cbr :: bool
  cas_seen :: bool
  dout :: bool
  cells :: "u16 \<Rightarrow> u16 \<Rightarrow> bool"
  refreshes :: nat

record state =
  io :: hw
  type :: nat
  typeSuffix :: string
  error_in_lower_half :: u8
  error_in_upper_half :: u8
  randomTable :: "u8 list"

definition addr_pins :: "hw \<Rightarrow> u16" where
  "addr_pins s = reverseTranslate (PORTB s, PORTC s, PORTD s)"

definition read_cell :: "chip \<Rightarrow> (u16 \<Rightarrow> u16 \<Rightarrow> bool) \<Rightarrow> u16 \<Rightarrow> u16 \<Rightarrow> bool" where
  "read_cell ch m r c = (case stuck ch r c of Some b \<Rightarrow> b | None \<Rightarrow> m r c)"

definition put_cell :: "(u16 \<Rightarrow> u16 \<Rightarrow> bool) \<Rightarrow> u16 \<Rightarrow> u16 \<Rightarrow> bool \<Rightarrow> u16 \<Rightarrow> u16 \<Rightarrow> bool" where
  "put_cell m r c d = m(r := (m r)(c := d))"

definition store_cell :: "u16 \<Rightarrow> u16 \<Rightarrow> bool \<Rightarrow> hw \<Rightarrow> hw" where
  "store_cell r c d s = s\<lparr>cells := put_cell (cells s) r c d\<rparr>"

text \<open>The step of the nibble counter: A8 of the column is its low bit, A8 of the row its high bit.\<close>

definition next_nibble :: "u16 \<times> u16 \<Rightarrow> u16 \<times> u16" where
  "next_nibble rc =
     (case rc of (r, c) \<Rightarrow> if bit c 8 then (r XOR 0x100, c AND NOT 0x100) else (r, c OR 0x100))"

definition write_PORTB :: "chip \<Rightarrow> u8 \<Rightarrow> hw \<Rightarrow> hw" where
  "write_PORTB ch v s =
     (let s' = s\<lparr>PORTB := v\<rparr> in
      if bit (PORTB s) 1 \<and> \<not> bit v 1 then
        (if bit (PORTC s) 3 then s'\<lparr>row_latch := addr_pins s', cbr := False, cas_seen := False\<rparr>
         else s'\<lparr>cbr := True, refreshes := refreshes s + 1\<rparr>)
      else if bit (PORTB s) 3 \<and> \<not> bit v 3 \<and> \<not> bit v 1 \<and> \<not> bit (PORTC s) 3 \<and> \<not> cbr s then
        store_cell (rdec ch (row_latch s)) (cdec ch (col_latch s)) (bit (PORTC s) 1) s'
      else s')"

definition write_PORTC :: "chip \<Rightarrow> u8 \<Rightarrow> hw \<Rightarrow> hw" where
  "write_PORTC ch v s =
     (let s' = s\<lparr>PORTC := v\<rparr> in
      if bit (PORTC s) 3 \<and> \<not> bit v 3 \<and> \<not> bit (PORTB s) 1 \<and> \<not> cbr s then
        (let (ra, ca) = (if nibble ch \<and> cas_seen s then next_nibble (row_latch s, col_latch s)
                         else (row_latch s, addr_pins s'));
             s'' = s'\<lparr>row_latch := ra, col_latch := ca, cas_seen := True\<rparr>;
             r = rdec ch ra;
             c = cdec ch ca
         in if \<not> bit (PORTB s) 3 then store_cell r c (bit v 1) s''
            else s''\<lparr>dout := read_cell ch (cells s) r c\<rparr>)
      else s')"

definition write_PORTD :: "chip \<Rightarrow> u8 \<Rightarrow> hw \<Rightarrow> hw" where
  "write_PORTD ch v s = s\<lparr>PORTD := v\<rparr>"

text \<open>\<^verbatim>\<open>PINC\<close>: the output pins read back as driven, PC2 carries the chip's data output.\<close>

text \<open>The control lines and the data input as the chip sees them.\<close>

definition RAS :: "hw \<Rightarrow> bool" where "RAS h = bit (PORTB h) 1"
definition WE :: "hw \<Rightarrow> bool" where "WE h = bit (PORTB h) 3"
definition CAS :: "hw \<Rightarrow> bool" where "CAS h = bit (PORTC h) 3"
definition DIN :: "hw \<Rightarrow> bool" where "DIN h = bit (PORTC h) 1"

definition PINC :: "hw \<Rightarrow> u8" where
  "PINC s = (PORTC s AND 0xFB) OR (if dout s then 0x04 else 0)"

subsection \<open>16Pin.h: the control signal macros\<close>

definition CAS_LOW16 :: "chip \<Rightarrow> hw \<Rightarrow> hw" where
  "CAS_LOW16 ch s = write_PORTC ch (unset_bit 3 (PORTC s)) s"
definition CAS_HIGH16 :: "chip \<Rightarrow> hw \<Rightarrow> hw" where
  "CAS_HIGH16 ch s = write_PORTC ch (set_bit 3 (PORTC s)) s"
definition RAS_LOW16 :: "chip \<Rightarrow> hw \<Rightarrow> hw" where
  "RAS_LOW16 ch s = write_PORTB ch (unset_bit 1 (PORTB s)) s"
definition RAS_HIGH16 :: "chip \<Rightarrow> hw \<Rightarrow> hw" where
  "RAS_HIGH16 ch s = write_PORTB ch (set_bit 1 (PORTB s)) s"
definition WE_LOW16 :: "chip \<Rightarrow> hw \<Rightarrow> hw" where
  "WE_LOW16 ch s = write_PORTB ch (unset_bit 3 (PORTB s)) s"
definition WE_HIGH16 :: "chip \<Rightarrow> hw \<Rightarrow> hw" where
  "WE_HIGH16 ch s = write_PORTB ch (set_bit 3 (PORTB s)) s"

subsection \<open>16Pin.cpp: core helpers\<close>

definition setAddr16_Random :: "chip \<Rightarrow> u16 \<Rightarrow> hw \<Rightarrow> hw" where
  "setAddr16_Random ch a s =
     (let idx_low = unat (ucast (a AND 0x1F) :: u8);
          idx_high = unat (ucast (drop_bit 5 a) :: u8);
          lb = lut_16_low_b ! idx_low;
          lc = lut_16_low_c ! idx_low;
          ld = lut_16_low_d ! idx_low;
          hb = lut_16_high_b ! idx_high;
          hc = lut_16_high_c ! idx_high;
          hd = lut_16_high_d ! idx_high;
          s = write_PORTB ch ((PORTB s AND 0xEA) OR lb OR hb) s;
          s = write_PORTC ch ((PORTC s AND 0xEE) OR lc OR hc) s;
          s = write_PORTD ch ((PORTD s AND 0x3C) OR ld OR hd) s
      in s)"

text \<open>The statements \<^verbatim>\<open>PORTC |= 0x02\<close> and \<^verbatim>\<open>PORTC &= ~0x02\<close> drive the data input pin.\<close>

definition PORTC_or_02 :: "chip \<Rightarrow> hw \<Rightarrow> hw" where
  "PORTC_or_02 ch s = write_PORTC ch (PORTC s OR 0x02) s"
definition PORTC_and_not_02 :: "chip \<Rightarrow> hw \<Rightarrow> hw" where
  "PORTC_and_not_02 ch s = write_PORTC ch (PORTC s AND NOT 0x02) s"

definition SET_DIN_16 :: "chip \<Rightarrow> u8 \<Rightarrow> hw \<Rightarrow> hw" where
  "SET_DIN_16 ch d s =
     (if d AND 0x04 \<noteq> 0 then PORTC_or_02 ch s else PORTC_and_not_02 ch s)"

definition setAddrData :: "chip \<Rightarrow> u16 \<Rightarrow> u8 \<Rightarrow> hw \<Rightarrow> hw" where
  "setAddrData ch addr dataVal s = SET_DIN_16 ch dataVal (setAddr16_Random ch addr s)"

definition rasHandling_16Pin :: "chip \<Rightarrow> u16 \<Rightarrow> hw \<Rightarrow> hw" where
  "rasHandling_16Pin ch row s =
     (let s = RAS_HIGH16 ch s;
          s = setAddr16_Random ch row s;
          s = RAS_LOW16 ch s
      in s)"

definition refreshRow_16Pin :: "chip \<Rightarrow> u16 \<Rightarrow> hw \<Rightarrow> hw" where
  "refreshRow_16Pin ch row s = RAS_HIGH16 ch (rasHandling_16Pin ch row s)"

subsection \<open>16Pin.cpp: single-cell access, sensing, address check\<close>

definition write16Pin :: "chip \<Rightarrow> u16 \<Rightarrow> u16 \<Rightarrow> u8 \<Rightarrow> hw \<Rightarrow> hw" where
  "write16Pin ch row col data s =
     (let s = setAddr16_Random ch row s;
          s = RAS_LOW16 ch s;
          s = WE_LOW16 ch s;
          s = setAddrData ch col (if data \<noteq> 0 then 0x04 else 0) s;
          s = CAS_LOW16 ch s;
          s = CAS_HIGH16 ch s;
          s = WE_HIGH16 ch s;
          s = RAS_HIGH16 ch s
      in s)"

definition read16Pin :: "chip \<Rightarrow> u16 \<Rightarrow> u16 \<Rightarrow> hw \<Rightarrow> u8 \<times> hw" where
  "read16Pin ch row col s =
     (let s = PORTC_and_not_02 ch s;
          s = setAddr16_Random ch row s;
          s = RAS_LOW16 ch s;
          s = setAddrData ch col 0 s;
          s = CAS_LOW16 ch s;
          result = drop_bit 2 (PINC s AND 0x04);
          s = CAS_HIGH16 ch s;
          s = RAS_HIGH16 ch s
      in (result, s))"

definition ram_present_16Pin :: "chip \<Rightarrow> hw \<Rightarrow> bool \<times> hw" where
  "ram_present_16Pin ch s =
     (let s = write16Pin ch 0 0 0 s;
          s = write16Pin ch 1 0 1 s;
          (r0, s) = read16Pin ch 0 0 s;
          (r1, s) = read16Pin ch 1 0 s;
          (r2, s) = read16Pin ch 0 0 s
      in (r0 = 0 \<and> r1 = 1 \<and> r2 = 0, s))"

text \<open>
  The functions from here on also use the firmware's globals; \<open>on_io\<close> runs a port-level
  step on the hardware part of the state.
\<close>

definition on_io :: "(hw \<Rightarrow> hw) \<Rightarrow> state \<Rightarrow> state" where
  "on_io f s = s\<lparr>io := f (io s)\<rparr>"

definition read_io :: "(hw \<Rightarrow> u8 \<times> hw) \<Rightarrow> state \<Rightarrow> u8 \<times> state" where
  "read_io f s = (case f (io s) of (r, h) \<Rightarrow> (r, s\<lparr>io := h\<rparr>))"

text \<open>Step 1 of \<^verbatim>\<open>sense41256_16Pin\<close>: the basic functionality check.\<close>

definition sense_step1 :: "chip \<Rightarrow> state \<Rightarrow> error_call + state" where
  "sense_step1 ch s =
     (let s = on_io (write16Pin ch 0 0 0) s;
          (r, s) = read_io (read16Pin ch 0 0) s
      in if r \<noteq> 0 then
           (let s = on_io (write16Pin ch 0 192 0) s;
                (r, s) = read_io (read16Pin ch 0 192) s
            in if r \<noteq> 0 then Inl (error2 0 0) else Inr s)
         else Inr s)"

definition sense41256_16Pin :: "chip \<Rightarrow> state \<Rightarrow> error_call + state" where
  "sense41256_16Pin ch s =
     (case sense_step1 ch (on_io (CAS_HIGH16 ch) s) of
        Inl e \<Rightarrow> Inl e
      | Inr s \<Rightarrow>
         (let s = on_io (write16Pin ch 0 0 0) s;
              s = on_io (write16Pin ch 256 0 1) s;
              (r, s) = read_io (read16Pin ch 0 0) s
          in if r = 0 then Inr (s\<lparr>type := T_41256\<rparr>)
             else
              (let s = on_io (write16Pin ch 0 0 0) s;
                   s = on_io (write16Pin ch 128 0 1) s;
                   (r, s) = read_io (read16Pin ch 0 0) s
               in if r \<noteq> 0 then
                    (let s = on_io (write16Pin ch 0 0 0) s;
                         s = on_io (write16Pin ch 0 128 1) s;
                         (r, s) = read_io (read16Pin ch 0 0) s
                     in if r = 0 then Inr (s\<lparr>type := T_4532\<rparr>)
                        else Inr (s\<lparr>type := T_4816\<rparr>))
                  else Inr (s\<lparr>type := T_4164\<rparr>))))"

text \<open>The bodies of the two loops of \<^verbatim>\<open>checkAddressing_16Pin\<close>, for address bit \<open>b\<close>.\<close>

definition check_row_bit :: "chip \<Rightarrow> nat \<Rightarrow> state \<Rightarrow> error_call + state" where
  "check_row_bit ch b s =
     (let base_row = 0;
          peer_row = push_bit b 1;
          s = on_io (write16Pin ch base_row 0 0) s;
          s = on_io (write16Pin ch peer_row 0 1) s;
          (base_result, s) = read_io (read16Pin ch base_row 0) s;
          (peer_result, s) = read_io (read16Pin ch peer_row 0) s
      in if type s = T_4532 \<and> b = 7 then Inr s
         else if base_result \<noteq> 0 then Inl (error2 (of_nat b) 1)
         else if peer_result \<noteq> 1 then Inl (error2 (of_nat b) 1)
         else Inr s)"

definition check_col_bit :: "chip \<Rightarrow> u16 \<Rightarrow> nat \<Rightarrow> state \<Rightarrow> error_call + state" where
  "check_col_bit ch test_row b s =
     (let base_col = 0;
          peer_col = push_bit b 1;
          s = on_io (write16Pin ch test_row base_col 0) s;
          s = on_io (write16Pin ch test_row peer_col 1) s;
          (r, s) = read_io (read16Pin ch test_row base_col) s
      in if r \<noteq> 0 then Inl (error2 (of_nat b + 16) 1)
         else (let (r, s) = read_io (read16Pin ch test_row peer_col) s
               in if r \<noteq> 1 then Inl (error2 (of_nat b + 16) 1) else Inr s))"

definition checkAddressing_16Pin :: "chip \<Rightarrow> state \<Rightarrow> error_call + state" where
  "checkAddressing_16Pin ch s =
     (let max_rows = rows (ramTypes ! type s);
          max_cols = columns (ramTypes ! type s);
          row_bits = countBits (of_nat (max_rows - 1));
          col_bits = countBits (of_nat (max_cols - 1));
          s = on_io (CAS_HIGH16 ch) s;
          s = on_io (RAS_HIGH16 ch) s;
          s = on_io (WE_LOW16 ch) s
      in case forE [0..<row_bits] (check_row_bit ch) s of
           Inl e \<Rightarrow> Inl e
         | Inr s \<Rightarrow>
            (let test_row = drop_bit 1 (of_nat max_rows)
             in forE [0..<col_bits] (check_col_bit ch test_row) s))"

section \<open>16Pin.cpp: the pattern engine\<close>

text \<open>The table fields of the detected type, as the functions read them.\<close>

definition is_nibble_type :: "nat \<Rightarrow> bool" where
  "is_nibble_type ty = (flags (ramTypes ! ty) AND RAM_FLAG_NIBBLE_MODE \<noteq> 0)"

text \<open>
  The half-good bookkeeping both error handlers share: the row half sets bit 0, the column
  half bit 1 of \<^verbatim>\<open>error_in_upper_half\<close> or \<^verbatim>\<open>error_in_lower_half\<close>.
\<close>

definition note_half_error :: "bool \<Rightarrow> bool \<Rightarrow> state \<Rightarrow> state" where
  "note_half_error row_upper col_upper s =
     (let s = (if row_upper then s\<lparr>error_in_upper_half := error_in_upper_half s OR 0x01\<rparr>
               else s\<lparr>error_in_lower_half := error_in_lower_half s OR 0x01\<rparr>);
          s = (if col_upper then s\<lparr>error_in_upper_half := error_in_upper_half s OR 0x02\<rparr>
               else s\<lparr>error_in_lower_half := error_in_lower_half s OR 0x02\<rparr>)
      in s)"

definition half_good_type :: "nat \<Rightarrow> bool" where
  "half_good_type ty = (ty = T_4164 \<or> ty = T_4532 \<or> ty = T_3732)"

definition both_halves_bad :: "state \<Rightarrow> bool" where
  "both_halves_bad s = (error_in_lower_half s AND error_in_upper_half s AND 0x03 = 0x03)"

subsection \<open>\<^verbatim>\<open>fastPatternTest_16Pin\<close>: patterns 0-3\<close>

definition pd_lut :: "u8 \<Rightarrow> u8 list" where
  "pd_lut pd_base = map (\<lambda>i. pd_base OR (i AND 0x03) OR push_bit 4 (i AND 0x0C)) (map of_nat [0..<16])"

definition pb_addr :: "u8 list" where
  "pb_addr = map (\<lambda>i. (i AND 1) OR push_bit 1 (i AND 2) OR push_bit 2 (i AND 4)) (map of_nat [0..<8])"

definition din_a0_0 :: "nat \<Rightarrow> u8" where
  "din_a0_0 patNr = (if (pattern ! patNr) AND 0x04 \<noteq> 0 then 0x02 else 0x00)"

definition din_a0_1 :: "nat \<Rightarrow> u8" where
  "din_a0_1 patNr =
     (if patNr \<le> 1 then din_a0_0 patNr
      else (if rotate_left (pattern ! patNr) AND 0x04 \<noteq> 0 then 0x02 else 0x00))"

definition pc_w :: "nat \<Rightarrow> u8 list" where
  "pc_w patNr = [0x08 OR din_a0_0 patNr, 0x08 OR 0x10 OR din_a0_1 patNr,
                 0x08 OR 0x01 OR din_a0_0 patNr, 0x08 OR 0x11 OR din_a0_1 patNr]"

definition pc_r :: "u8 list" where
  "pc_r = [0x08, 0x08 OR 0x10, 0x08 OR 0x01, 0x08 OR 0x11]"

definition exp_a0 :: "nat \<Rightarrow> u8 list" where
  "exp_a0 patNr =
     (let e0 = (if din_a0_0 patNr \<noteq> 0 then 0x04 else 0x00);
          e1 = (if din_a0_1 patNr \<noteq> 0 then 0x04 else 0x00)
      in [e0, e1, e0, e1])"

text \<open>The innermost write loop: one CAS cycle per PORTD value.\<close>

definition fast_write_cas :: "chip \<Rightarrow> u8 list \<Rightarrow> hw \<Rightarrow> hw" where
  "fast_write_cas ch lut h =
     fold (\<lambda>v h. CAS_LOW16 ch (write_PORTD ch v (CAS_HIGH16 ch h))) lut h"

text \<open>
  The body of the PORTB loop of the write phase; \<^verbatim>\<open>pb_base\<close> is carried along because the
  nibble branch reloads it.
\<close>

definition fast_write_pb ::
  "chip \<Rightarrow> bool \<Rightarrow> u16 \<Rightarrow> u8 list \<Rightarrow> u8 \<Rightarrow> u8 \<Rightarrow> u8 \<times> hw \<Rightarrow> u8 \<times> hw" where
  "fast_write_pb ch is_nibble row lut pcw pa st =
     (case st of (pb_base, h) \<Rightarrow>
        let h = write_PORTB ch (pb_base OR pa) h;
            h = fast_write_cas ch lut h;
            h = CAS_HIGH16 ch h
        in if is_nibble then
             (let h = rasHandling_16Pin ch row h;
                  pb_base = PORTB h AND 0xEA;
                  h = write_PORTC ch pcw h
              in (pb_base, h))
           else (pb_base, h))"

definition fast_write_pc ::
  "chip \<Rightarrow> bool \<Rightarrow> u16 \<Rightarrow> u8 list \<Rightarrow> u8 \<Rightarrow> u8 \<times> hw \<Rightarrow> u8 \<times> hw" where
  "fast_write_pc ch is_nibble row lut pcw st =
     (case st of (pb_base, h) \<Rightarrow>
        fold (fast_write_pb ch is_nibble row lut pcw) pb_addr (pb_base, write_PORTC ch pcw h))"

definition fast_write_row :: "chip \<Rightarrow> nat \<Rightarrow> nat \<Rightarrow> u8 list \<Rightarrow> u16 \<Rightarrow> hw \<Rightarrow> hw" where
  "fast_write_row ch ty patNr lut row h =
     (let num_pc = (if columns (ramTypes ! ty) > 256 then 4 else 2);
          h = rasHandling_16Pin ch row h;
          h = WE_LOW16 ch h;
          pb_base = PORTB h AND 0xEA;
          (pb_base, h) = fold (fast_write_pc ch (is_nibble_type ty) row lut)
                           (take num_pc (pc_w patNr)) (pb_base, h);
          h = WE_HIGH16 ch h;
          h = RAS_HIGH16 ch h
      in h)"

text \<open>The read phase; a mismatch either is swallowed (\<^verbatim>\<open>continue\<close>) or ends the run.\<close>

definition fast_read_cas :: "chip \<Rightarrow> nat \<Rightarrow> u16 \<Rightarrow> u8 \<Rightarrow> u8 \<Rightarrow> state \<Rightarrow> error_call + state" where
  "fast_read_cas ch patNr row exp v s =
     (let s = on_io (write_PORTD ch v) s;
          s = on_io (CAS_LOW16 ch) s;
          s = on_io (CAS_HIGH16 ch) s
      in if (PINC (io s) XOR exp) AND 0x04 \<noteq> 0 then
           (let s = note_half_error (128 \<le> row) (PORTD (io s) AND 0x40 \<noteq> 0) s
            in if half_good_type (type s) \<and> \<not> both_halves_bad s then Inr s
               else Inl (error2 (of_nat (patNr + 1)) 2))
         else Inr s)"

definition fast_read_pb ::
  "chip \<Rightarrow> bool \<Rightarrow> nat \<Rightarrow> u16 \<Rightarrow> u8 list \<Rightarrow> u8 \<Rightarrow> u8 \<Rightarrow> u8 \<Rightarrow> u8 \<times> state
     \<Rightarrow> error_call + u8 \<times> state" where
  "fast_read_pb ch is_nibble patNr row lut pcr exp pa st =
     (case st of (pb_base, s) \<Rightarrow>
        case forE lut (fast_read_cas ch patNr row exp) (on_io (write_PORTB ch (pb_base OR pa)) s) of
          Inl e \<Rightarrow> Inl e
        | Inr s \<Rightarrow>
            if is_nibble then
              (let s = on_io (rasHandling_16Pin ch row) s;
                   pb_base = PORTB (io s) AND 0xEA;
                   s = on_io (write_PORTC ch pcr) s
               in Inr (pb_base, s))
            else Inr (pb_base, s))"

definition fast_read_pc ::
  "chip \<Rightarrow> bool \<Rightarrow> nat \<Rightarrow> u16 \<Rightarrow> u8 list \<Rightarrow> u8 \<times> u8 \<Rightarrow> u8 \<times> state \<Rightarrow> error_call + u8 \<times> state" where
  "fast_read_pc ch is_nibble patNr row lut pe st =
     (case pe of (pcr, exp) \<Rightarrow>
        case st of (pb_base, s) \<Rightarrow>
          forE pb_addr (fast_read_pb ch is_nibble patNr row lut pcr exp)
            (pb_base, on_io (write_PORTC ch pcr) s))"

definition fast_read_row :: "chip \<Rightarrow> nat \<Rightarrow> u8 list \<Rightarrow> u16 \<Rightarrow> state \<Rightarrow> error_call + state" where
  "fast_read_row ch patNr lut row s =
     (let num_pc = (if columns (ramTypes ! type s) > 256 then 4 else 2);
          s = on_io (PORTC_and_not_02 ch) s;
          s = on_io (rasHandling_16Pin ch row) s;
          pb_base = PORTB (io s) AND 0xEA
      in case forE (take num_pc (zip pc_r (exp_a0 patNr)))
                (fast_read_pc ch (is_nibble_type (type s)) patNr row lut) (pb_base, s) of
           Inl e \<Rightarrow> Inl e
         | Inr (pb_base, s) \<Rightarrow> Inr (on_io (RAS_HIGH16 ch) s))"

definition fast_row :: "chip \<Rightarrow> nat \<Rightarrow> u8 list \<Rightarrow> nat \<Rightarrow> state \<Rightarrow> error_call + state" where
  "fast_row ch patNr lut row s =
     fast_read_row ch patNr lut (of_nat row)
       (on_io (fast_write_row ch (type s) patNr lut (of_nat row)) s)"

definition fastPatternTest_16Pin :: "chip \<Rightarrow> nat \<Rightarrow> state \<Rightarrow> error_call + state" where
  "fastPatternTest_16Pin ch patNr s =
     (let total_rows = rows (ramTypes ! type s);
          lut = pd_lut (PORTD (io s) AND 0x3C);
          s = on_io (CAS_HIGH16 ch) s
      in forE [0..<total_rows] (fast_row ch patNr lut) s)"

subsection \<open>\<^verbatim>\<open>checkRow_16Pin\<close>\<close>

text \<open>
  The four data bits of a nibble group, as the nibble paths of \<^verbatim>\<open>writeRow_16Pin\<close> and
  \<^verbatim>\<open>checkRow_16Pin\<close> derive them from one table byte.
\<close>

definition nibble_data :: "u8 \<Rightarrow> u8 list" where
  "nibble_data data0 = [data0, drop_bit 1 data0, push_bit 1 data0, push_bit 2 data0]"

text \<open>The loop state of the page-mode read: the rotating pattern, the flag, the column.\<close>

record check_acc =
  pat :: u8
  error_found :: bool
  error_column :: u16

definition check_cas ::
  "chip \<Rightarrow> bool \<Rightarrow> u8 list \<Rightarrow> u16 \<Rightarrow> u8 \<Rightarrow> u8 \<Rightarrow> u8 \<Rightarrow> u16 \<Rightarrow> nat \<Rightarrow> check_acc \<times> hw
     \<Rightarrow> check_acc \<times> hw" where
  "check_cas ch isRandom tbl row base_b base_c base_d chunkBase c st =
     (case st of (acc, h) \<Rightarrow>
        let h = write_PORTB ch (base_b OR lut_16_low_b ! c) h;
            h = write_PORTC ch (base_c OR lut_16_low_c ! c) h;
            h = write_PORTD ch (base_d OR lut_16_low_d ! c) h;
            h = CAS_LOW16 ch h;
            expected = (if isRandom then tbl ! unat (mix8 (chunkBase OR of_nat c) row) else pat acc);
            acc = (if (PINC h XOR expected) AND 0x04 \<noteq> 0
                   then acc\<lparr>error_column := (if \<not> error_found acc then chunkBase OR of_nat c
                                                else error_column acc),
                            error_found := True\<rparr>
                   else acc);
            h = CAS_HIGH16 ch h;
            acc = (if \<not> isRandom then acc\<lparr>pat := rotate_left (pat acc)\<rparr> else acc)
        in (acc, h))"

definition check_chunk ::
  "chip \<Rightarrow> bool \<Rightarrow> u8 list \<Rightarrow> u16 \<Rightarrow> nat \<Rightarrow> check_acc \<times> hw \<Rightarrow> check_acc \<times> hw" where
  "check_chunk ch isRandom tbl row chunk st =
     (case st of (acc, h) \<Rightarrow>
        let hb = lut_16_high_b ! chunk;
            hc = lut_16_high_c ! chunk;
            hd = lut_16_high_d ! chunk;
            base_b = (PORTB h AND 0xEA) OR hb;
            base_c = (PORTC h AND 0xEC) OR hc;
            base_d = (PORTD h AND 0x3C) OR hd;
            chunkBase = push_bit 5 (of_nat chunk)
        in fold (check_cas ch isRandom tbl row base_b base_c base_d chunkBase) (rev [0..<32])
             (acc, h))"

definition check_nibble_col :: "chip \<Rightarrow> u8 list \<Rightarrow> u16 \<Rightarrow> nat \<Rightarrow> check_acc \<times> hw \<Rightarrow> check_acc \<times> hw" where
  "check_nibble_col ch tbl row col st =
     (case st of (acc, h) \<Rightarrow>
        if error_found acc then (acc, h)
        else
          let d = nibble_data (tbl ! unat (mix8 (of_nat col) row));
              h = setAddr16_Random ch row h;
              h = RAS_LOW16 ch h;
              h = setAddr16_Random ch (of_nat col) h;
              h = CAS_HIGH16 ch (CAS_LOW16 ch h);
              data0 = PINC h XOR d ! 0;
              h = CAS_HIGH16 ch (CAS_LOW16 ch h);
              data1 = PINC h XOR d ! 1;
              h = CAS_HIGH16 ch (CAS_LOW16 ch h);
              data2 = PINC h XOR d ! 2;
              h = CAS_HIGH16 ch (CAS_LOW16 ch h);
              data3 = PINC h XOR d ! 3
          in if (data0 OR data1 OR data2 OR data3) AND 0x04 \<noteq> 0 then
               (acc\<lparr>error_found := True, error_column := of_nat col\<rparr>,
                RAS_HIGH16 ch (CAS_HIGH16 ch h))
             else (acc, RAS_HIGH16 ch h))"

definition checkRow_scan :: "chip \<Rightarrow> nat \<Rightarrow> u8 list \<Rightarrow> u16 \<Rightarrow> u16 \<Rightarrow> nat \<Rightarrow> hw \<Rightarrow> check_acc \<times> hw" where
  "checkRow_scan ch ty tbl cols row patNr h =
     (let acc = \<lparr>pat = pattern ! patNr, error_found = False, error_column = 0\<rparr>;
          isRandom = (patNr \<ge> 4);
          num_chunks = unat (ucast (drop_bit 5 cols) :: u8);
          h = PORTC_and_not_02 ch h
      in if \<not> is_nibble_type ty then
           (let h = rasHandling_16Pin ch row h;
                (acc, h) = fold (check_chunk ch isRandom tbl row) [0..<num_chunks] (acc, h);
                h = CAS_HIGH16 ch h;
                h = RAS_HIGH16 ch h
            in (acc, h))
         else fold (check_nibble_col ch tbl row) [0..<unat cols div 2] (acc, h))"

definition checkRow_16Pin :: "chip \<Rightarrow> u16 \<Rightarrow> u16 \<Rightarrow> nat \<Rightarrow> u8 \<Rightarrow> state \<Rightarrow> error_call + state" where
  "checkRow_16Pin ch cols row patNr check s =
     (case checkRow_scan ch (type s) (randomTable s) cols row patNr (io s) of (acc, h) \<Rightarrow>
        let s = s\<lparr>io := h\<rparr>
        in if error_found acc then
             (let s = note_half_error (128 \<le> row) (128 \<le> error_column acc) s
              in if half_good_type (type s) \<and> \<not> both_halves_bad s then Inr s
                 else Inl (error2 (of_nat (patNr + 1)) check))
           else Inr s)"

subsection \<open>\<^verbatim>\<open>writeRow_16Pin\<close>\<close>

definition write_cas ::
  "chip \<Rightarrow> u8 list \<Rightarrow> u16 \<Rightarrow> u8 \<Rightarrow> u8 \<Rightarrow> u8 \<Rightarrow> u16 \<Rightarrow> nat \<Rightarrow> hw \<Rightarrow> hw" where
  "write_cas ch tbl row base_b base_c base_d chunkBase c h =
     (let val_c = base_c OR lut_16_low_c ! c;
          data_check = tbl ! unat (mix8 (chunkBase OR of_nat c) row);
          val_c = (if data_check AND 0x04 \<noteq> 0 then val_c OR 0x02 else val_c);
          h = CAS_HIGH16 ch h;
          h = write_PORTB ch (base_b OR lut_16_low_b ! c) h;
          h = write_PORTD ch (base_d OR lut_16_low_d ! c) h;
          h = write_PORTC ch val_c h;
          h = CAS_LOW16 ch h
      in h)"

definition write_chunk :: "chip \<Rightarrow> u8 list \<Rightarrow> u16 \<Rightarrow> nat \<Rightarrow> hw \<Rightarrow> hw" where
  "write_chunk ch tbl row chunk h =
     (let hb = lut_16_high_b ! chunk;
          hc = lut_16_high_c ! chunk;
          hd = lut_16_high_d ! chunk;
          base_b = (PORTB h AND 0xEA) OR hb;
          base_c = (PORTC h AND 0xEC) OR hc;
          base_d = (PORTD h AND 0x3C) OR hd;
          chunkBase = push_bit 5 (of_nat chunk)
      in fold (write_cas ch tbl row base_b base_c base_d chunkBase) (rev [0..<32]) h)"

definition write_nibble_col :: "chip \<Rightarrow> u8 list \<Rightarrow> u16 \<Rightarrow> nat \<Rightarrow> hw \<Rightarrow> hw" where
  "write_nibble_col ch tbl row col h =
     (let h = setAddr16_Random ch row h;
          h = RAS_LOW16 ch h;
          d = nibble_data (tbl ! unat (mix8 (of_nat col) row));
          h = setAddr16_Random ch (of_nat col) h;
          h = CAS_HIGH16 ch (CAS_LOW16 ch (SET_DIN_16 ch (d ! 0) h));
          h = CAS_HIGH16 ch (CAS_LOW16 ch (SET_DIN_16 ch (d ! 1) h));
          h = CAS_HIGH16 ch (CAS_LOW16 ch (SET_DIN_16 ch (d ! 2) h));
          h = CAS_HIGH16 ch (CAS_LOW16 ch (SET_DIN_16 ch (d ! 3) h));
          h = RAS_HIGH16 ch h
      in h)"

text \<open>The write part of \<^verbatim>\<open>writeRow_16Pin\<close>, up to the retention section.\<close>

definition writeRow_write :: "chip \<Rightarrow> nat \<Rightarrow> u8 list \<Rightarrow> u16 \<Rightarrow> u16 \<Rightarrow> hw \<Rightarrow> hw" where
  "writeRow_write ch ty tbl row cols h =
     (let h = CAS_HIGH16 ch h;
          num_chunks = unat (ucast (drop_bit 5 cols) :: u8)
      in if \<not> is_nibble_type ty then
           (let h = rasHandling_16Pin ch row h;
                h = WE_LOW16 ch h;
                h = fold (write_chunk ch tbl row) [0..<num_chunks] h;
                h = CAS_HIGH16 ch h;
                h = WE_HIGH16 ch h;
                h = refreshRow_16Pin ch row h
            in h)
         else
           (let h = WE_LOW16 ch h;
                h = fold (write_nibble_col ch tbl row) [0..<unat cols div 2] h;
                h = WE_HIGH16 ch h
            in h))"



subsection \<open>\<^verbatim>\<open>run_16Pin_tests\<close>\<close>




subsection \<open>\<^verbatim>\<open>refreshTimeTest_16Pin\<close>\<close>

definition casBeforeRasRefresh_16Pin :: "chip \<Rightarrow> hw \<Rightarrow> hw" where
  "casBeforeRasRefresh_16Pin ch h =
     (let h = RAS_HIGH16 ch h;
          h = CAS_LOW16 ch h;
          h = RAS_LOW16 ch h;
          h = RAS_HIGH16 ch h;
          h = CAS_HIGH16 ch h
      in h)"

definition refresh_write_bit :: "chip \<Rightarrow> u8 \<Rightarrow> nat \<Rightarrow> hw \<Rightarrow> hw" where
  "refresh_write_bit ch dataByte col h =
     (let b = drop_bit col dataByte AND 0x01;
          h = (if b \<noteq> 0 then PORTC_or_02 ch h else PORTC_and_not_02 ch h);
          h = setAddrData ch (of_nat col) (if b \<noteq> 0 then 0x04 else 0x00) h;
          h = CAS_LOW16 ch h;
          h = CAS_HIGH16 ch h
      in h)"

definition refresh_write_row :: "chip \<Rightarrow> u8 list \<Rightarrow> nat \<Rightarrow> hw \<Rightarrow> hw" where
  "refresh_write_row ch tbl row h =
     (let dataByte = tbl ! unat ((of_nat row :: u16) AND 0xFF);
          h = setAddr16_Random ch (of_nat row) h;
          h = RAS_LOW16 ch h;
          h = fold (refresh_write_bit ch dataByte) [0..<8] h;
          h = RAS_HIGH16 ch h;
          h = casBeforeRasRefresh_16Pin ch h
      in h)"

definition refresh_cycles :: "chip \<Rightarrow> hw \<Rightarrow> hw" where
  "refresh_cycles ch h =
     fold (\<lambda>cycle h. fold (\<lambda>refresh_count h. casBeforeRasRefresh_16Pin ch h) [0..<256] h)
       [0..<10] h"

definition refresh_read_bit :: "chip \<Rightarrow> u8 \<Rightarrow> nat \<Rightarrow> hw \<Rightarrow> error_call + hw" where
  "refresh_read_bit ch expectedByte col h =
     (let h = setAddrData ch (of_nat col) 0 h;
          h = CAS_LOW16 ch h;
          actualBit = (if PINC h AND 0x04 \<noteq> 0 then 1 else 0 :: u8);
          expectedBit = drop_bit col expectedByte AND 0x01;
          h = CAS_HIGH16 ch h
      in if actualBit \<noteq> expectedBit then Inl (error2 0 5) else Inr h)"

definition refresh_read_row :: "chip \<Rightarrow> u8 list \<Rightarrow> nat \<Rightarrow> hw \<Rightarrow> error_call + hw" where
  "refresh_read_row ch tbl row h =
     (let expectedByte = tbl ! unat ((of_nat row :: u16) AND 0xFF);
          h = setAddr16_Random ch (of_nat row) h;
          h = RAS_LOW16 ch h
      in case forE [0..<8] (refresh_read_bit ch expectedByte) h of
           Inl e \<Rightarrow> Inl e
         | Inr h \<Rightarrow> Inr (casBeforeRasRefresh_16Pin ch (RAS_HIGH16 ch h)))"

definition refreshTimeTest_16Pin :: "chip \<Rightarrow> state \<Rightarrow> error_call + state" where
  "refreshTimeTest_16Pin ch s =
     (let rws = rows (ramTypes ! type s);
          h = io s;
          h = CAS_HIGH16 ch h;
          h = WE_LOW16 ch h;
          h = fold (refresh_write_row ch (randomTable s)) [0..<rws] h;
          h = WE_HIGH16 ch h;
          h = refresh_cycles ch h;
          h = PORTC_and_not_02 ch h
      in case forE [0..<rws] (refresh_read_row ch (randomTable s)) h of
           Inl e \<Rightarrow> Inl e
         | Inr h \<Rightarrow> Inr (s\<lparr>io := h\<rparr>))"

text \<open>
  The end of \<^verbatim>\<open>test_16Pin\<close>: the refresh test runs for a 41256 only, and \<^verbatim>\<open>testOK()\<close> is
  reached only when it returns. \<open>Inr\<close> stands for reaching \<^verbatim>\<open>testOK()\<close>.
\<close>

definition test_16Pin_finish :: "chip \<Rightarrow> state \<Rightarrow> error_call + state" where
  "test_16Pin_finish ch s =
     (if type s = T_41256 then refreshTimeTest_16Pin ch s else Inr s)"

section \<open>Auxiliary definitions for the proofs\<close>

text \<open>The 9-bit address with the given bits A0 .. A8.\<close>

definition addr9 :: "bool \<Rightarrow> bool \<Rightarrow> bool \<Rightarrow> bool \<Rightarrow> bool \<Rightarrow> bool \<Rightarrow> bool \<Rightarrow> bool \<Rightarrow> bool \<Rightarrow> u16" where
  "addr9 b0 b1 b2 b3 b4 b5 b6 b7 b8 =
     (if b0 then 1 else 0) OR (if b1 then 2 else 0) OR (if b2 then 4 else 0)
     OR (if b3 then 8 else 0) OR (if b4 then 16 else 0) OR (if b5 then 32 else 0)
     OR (if b6 then 64 else 0) OR (if b7 then 128 else 0) OR (if b8 then 256 else 0)"


text \<open>The idle state between two accesses: RAS, WE and CAS are high.\<close>

definition idle :: "hw \<Rightarrow> bool" where
  "idle h = (bit (PORTB h) 1 \<and> bit (PORTB h) 3 \<and> bit (PORTC h) 3)"

text \<open>
  The ports as \<^verbatim>\<open>test_16Pin\<close> initialises them (PORTB = 0b00101010, PORTC = 0b00001000,
  PORTD = 0), around a chip with the given cell contents, and a program state on top of it.
\<close>

definition init_hw :: "(u16 \<Rightarrow> u16 \<Rightarrow> bool) \<Rightarrow> hw" where
  "init_hw m = \<lparr>PORTB = 0x2A, PORTC = 0x08, PORTD = 0x00, row_latch = 0, col_latch = 0,
                cbr = False, cas_seen = False, dout = False, cells = m, refreshes = 0\<rparr>"

definition init_state :: "(u16 \<Rightarrow> u16 \<Rightarrow> bool) \<Rightarrow> nat \<Rightarrow> u8 list \<Rightarrow> state" where
  "init_state m ty tbl = \<lparr>io = init_hw m, type = ty, typeSuffix = [], error_in_lower_half = 0,
                          error_in_upper_half = 0, randomTable = tbl\<rparr>"

text \<open>
  Simulated chips. A fault-free chip decodes the address bits of its masks and has no stuck
  cell. A chip with a defective address bit \<open>b\<close> sees that bit as 0 whatever the pin carries:
  in its row decoder, in its column decoder, or (a defective pin) in both.
\<close>

definition ideal_chip :: "u16 \<Rightarrow> u16 \<Rightarrow> chip" where
  "ideal_chip rmask cmask =
     \<lparr>rdec = (\<lambda>a. a AND rmask), cdec = (\<lambda>a. a AND cmask), stuck = (\<lambda>r c. None), nibble = False\<rparr>"

definition row_bit_stuck_chip :: "nat \<Rightarrow> u16 \<Rightarrow> u16 \<Rightarrow> chip" where
  "row_bit_stuck_chip b rmask cmask =
     \<lparr>rdec = (\<lambda>a. a AND rmask AND NOT (push_bit b 1)), cdec = (\<lambda>a. a AND cmask),
      stuck = (\<lambda>r c. None), nibble = False\<rparr>"

definition col_bit_stuck_chip :: "nat \<Rightarrow> u16 \<Rightarrow> u16 \<Rightarrow> chip" where
  "col_bit_stuck_chip b rmask cmask =
     \<lparr>rdec = (\<lambda>a. a AND rmask), cdec = (\<lambda>a. a AND cmask AND NOT (push_bit b 1)),
      stuck = (\<lambda>r c. None), nibble = False\<rparr>"

definition pin_stuck_chip :: "nat \<Rightarrow> u16 \<Rightarrow> u16 \<Rightarrow> chip" where
  "pin_stuck_chip b rmask cmask =
     \<lparr>rdec = (\<lambda>a. a AND rmask AND NOT (push_bit b 1)),
      cdec = (\<lambda>a. a AND cmask AND NOT (push_bit b 1)), stuck = (\<lambda>r c. None), nibble = False\<rparr>"

text \<open>The fault-free chip of a type of the table: it decodes exactly the type's address bits.\<close>

definition chip_of_type :: "nat \<Rightarrow> chip" where
  "chip_of_type ty =
     (ideal_chip (of_nat (rows (ramTypes ! ty) - 1)) (of_nat (columns (ramTypes ! ty) - 1)))
       \<lparr>nibble := is_nibble_type ty\<rparr>"

text \<open>
  A half-good chip: 256 rows and columns, the cells of the columns from 128 on permanently
  stuck, each at the value \<open>sv\<close> gives it.
\<close>

definition upper_cols_stuck_chip :: "(u16 \<Rightarrow> u16 \<Rightarrow> bool) \<Rightarrow> chip" where
  "upper_cols_stuck_chip sv =
     \<lparr>rdec = (\<lambda>a. a AND 0xFF), cdec = (\<lambda>a. a AND 0xFF),
      stuck = (\<lambda>r c. if 128 \<le> c then Some (sv r c) else None), nibble = False\<rparr>"

text \<open>Ready for an access: RAS and CAS are high (WE may still be low).\<close>

definition ready :: "hw \<Rightarrow> bool" where
  "ready h = (bit (PORTB h) 1 \<and> bit (PORTC h) 3)"

text \<open>The types \<^verbatim>\<open>checkAddressing_16Pin\<close> can see: those the sensing functions set.\<close>

definition sensed_types :: "nat list" where
  "sensed_types = [T_4164, T_41256, T_41257, T_4816, T_4532]"




text \<open>
  The steps of a random-pattern pass as events: the write part of \<^verbatim>\<open>writeRow_16Pin\<close> for a
  row, and a call \<^verbatim>\<open>checkRow_16Pin(cols, r, patNr, 3)\<close>. \<open>row_events\<close> are the events of one
  call of \<^verbatim>\<open>writeRow_16Pin\<close>, \<open>pass_events\<close> those of the row loop of \<^verbatim>\<open>run_16Pin_tests\<close>.
\<close>

datatype pass_event = WriteRow u16 | CheckRow u16


definition run_event :: "chip \<Rightarrow> u16 \<Rightarrow> nat \<Rightarrow> pass_event \<Rightarrow> state \<Rightarrow> error_call + state" where
  "run_event ch cols patNr ev s =
     (case ev of
        WriteRow r \<Rightarrow> Inr (on_io (writeRow_write ch (type s) (randomTable s) r cols) s)
      | CheckRow r \<Rightarrow> checkRow_16Pin ch cols r patNr 3 s)"



text \<open>A step that leaves the detected type and the table alone.\<close>

definition keeps :: "state \<Rightarrow> state \<Rightarrow> bool" where
  "keeps s s' = (type s' = type s \<and> randomTable s' = randomTable s)"

definition row_fill :: "chip \<Rightarrow> u16 \<Rightarrow> (u16 \<Rightarrow> bool) \<Rightarrow> u16 list \<Rightarrow> (u16 \<Rightarrow> u16 \<Rightarrow> bool) \<Rightarrow> u16 \<Rightarrow> u16 \<Rightarrow> bool" where
  "row_fill ch R G cs m = fold (\<lambda>c m. put_cell m (rdec ch R) (cdec ch c) (G c)) cs m"

definition wr_cycle :: "hw \<Rightarrow> u16 \<Rightarrow> bool" where
  "wr_cycle h R = (\<not> bit (PORTB h) 1 \<and> \<not> bit (PORTB h) 3 \<and> \<not> cbr h \<and> row_latch h = R)"

definition rd_cycle :: "hw \<Rightarrow> u16 \<Rightarrow> bool" where
  "rd_cycle h R = (\<not> bit (PORTB h) 1 \<and> bit (PORTB h) 3 \<and> \<not> cbr h \<and> row_latch h = R)"

definition fast_cols :: "u8 list \<Rightarrow> u8 list \<Rightarrow> u16 list" where
  "fast_cols pcs lut =
     concat (map (\<lambda>pcw. concat (map (\<lambda>pa. map (\<lambda>v. reverseTranslate (pa, pcw, v)) lut) pb_addr)) pcs)"

definition pb_base_ok :: "u8 \<Rightarrow> bool" where
  "pb_base_ok pbb = (pbb AND 0x17 = 0)"

definition fast_bit :: "nat \<Rightarrow> u16 \<Rightarrow> bool" where
  "fast_bit patNr c = bit (if bit c 0 then din_a0_1 patNr else din_a0_0 patNr) 1"

definition flags_ok :: "bool \<Rightarrow> state \<Rightarrow> bool" where
  "flags_ok hg s =
     (if hg then type s = T_4164 \<and> \<not> bit (error_in_lower_half s) 1
      else error_in_lower_half s = 0 \<and> error_in_upper_half s = 0)"

definition col_flag :: "state \<Rightarrow> bool" where
  "col_flag s = bit (error_in_upper_half s) 1"

definition mism :: "chip \<Rightarrow> (u16 \<Rightarrow> u16 \<Rightarrow> bool) \<Rightarrow> u16 \<Rightarrow> (u16 \<Rightarrow> bool) \<Rightarrow> u16 \<Rightarrow> bool" where
  "mism ch m R G c = (read_cell ch m (rdec ch R) (cdec ch c) \<noteq> G c)"

text \<open>What the read loops keep: the open read cycle, the memory, the globals.\<close>

definition rd_inv :: "u16 \<Rightarrow> (u16 \<Rightarrow> u16 \<Rightarrow> bool) \<Rightarrow> nat \<Rightarrow> u8 list \<Rightarrow> bool \<Rightarrow> state \<Rightarrow> bool" where
  "rd_inv R m ty tbl hg s =
     (rd_cycle (io s) R \<and> cells (io s) = m \<and> type s = ty \<and> randomTable s = tbl \<and> flags_ok hg s)"

definition page_chip :: "bool \<Rightarrow> chip \<Rightarrow> bool" where
  "page_chip hg ch =
     (\<not> nibble ch \<and> (\<forall>a b. cdec ch a = cdec ch b \<longrightarrow> bit a 0 = bit b 0)
      \<and> (\<forall>r c b. stuck ch (rdec ch r) (cdec ch c) = Some b \<longrightarrow> hg \<and> bit c 7))"

definition page_cols :: "nat \<Rightarrow> u16 list" where
  "page_cols num_chunks =
     concat (map (\<lambda>chunk. map (\<lambda>c. push_bit 5 (of_nat chunk) OR of_nat c) (rev [0..<32]))
              [0..<num_chunks])"

definition rand_bit :: "u8 list \<Rightarrow> u16 \<Rightarrow> u16 \<Rightarrow> bool" where
  "rand_bit tbl row c = bit (tbl ! unat (mix8 c row)) 2"

definition scan_step :: "(u16 \<Rightarrow> bool) \<Rightarrow> u16 \<Rightarrow> check_acc \<Rightarrow> check_acc" where
  "scan_step bad c acc =
     (if bad c then acc\<lparr>error_column := (if \<not> error_found acc then c else error_column acc),
                        error_found := True\<rparr>
      else acc)"

definition scan_acc :: "(u16 \<Rightarrow> bool) \<Rightarrow> u16 list \<Rightarrow> check_acc \<Rightarrow> check_acc" where
  "scan_acc bad cs acc = fold (scan_step bad) cs acc"



section \<open>Facts about the pseudo-random table\<close>

lemma fold_update_length:
  "length (fold (\<lambda>i t. t[i := f i t]) is t) = length t"
  by (induction "is" arbitrary: t) simp_all

lemma fold_update_nth:
  assumes g: "\<And>i t v j. j \<noteq> i \<Longrightarrow> g i (t[j := v]) = g i t"
  shows "distinct is \<Longrightarrow> fold (\<lambda>i t. t[i := g i t]) is t ! k
           = (if k \<in> set is \<and> k < length t then g k t else t ! k)"
proof (induction "is" arbitrary: t)
  case Nil
  then show ?case by simp
next
  case (Cons i "is")
  from Cons.prems have d: "distinct is" and ni: "i \<notin> set is" by simp_all
  define t' where "t' = t[i := g i t]"
  have IH: "fold (\<lambda>i t. t[i := g i t]) is t' ! k
           = (if k \<in> set is \<and> k < length t' then g k t' else t' ! k)"
    by (rule Cons.IH [OF d])
  have step: "fold (\<lambda>i t. t[i := g i t]) (i # is) t = fold (\<lambda>i t. t[i := g i t]) is t'"
    by (simp add: t'_def)
  have len: "length t' = length t" by (simp add: t'_def)
  show ?case
  proof (cases "k = i")
    case True
    have fk: "fold (\<lambda>i t. t[i := g i t]) (i # is) t ! k = t' ! i"
      unfolding step IH using ni True by simp
    show ?thesis
    proof (cases "i < length t")
      case l: True
      then have "t' ! i = g i t" by (simp add: t'_def)
      then show ?thesis unfolding fk using True l by simp
    next
      case l: False
      then have "length t \<le> i" by simp
      then have "t' ! i = t ! i" unfolding t'_def by (simp only: list_update_beyond)
      then show ?thesis unfolding fk using True l by simp
    qed
  next
    case False
    then have "i \<noteq> k" by simp
    then have gk: "g k t' = g k t" unfolding t'_def by (rule g)
    have nk: "t' ! k = t ! k" using False by (simp add: t'_def)
    show ?thesis unfolding step IH gk nk len using False by simp
  qed
qed
lemma generateRandomTable_length [simp]:
  "length (generateRandomTable t) = length t"
  unfolding generateRandomTable_def by (rule fold_update_length)

lemma invertRandomTable_length [simp]:
  "length (invertRandomTable t) = length t"
  unfolding invertRandomTable_def by (rule fold_update_length)

lemma generateRandomTable_nth:
  "k < 256 \<Longrightarrow> length t = 256 \<Longrightarrow> generateRandomTable t ! k = random_entry k"
  unfolding generateRandomTable_def
  by (subst fold_update_nth [where g = "\<lambda>i t. random_entry i"]) simp_all

lemma invertRandomTable_nth:
  "k < 256 \<Longrightarrow> length t = 256 \<Longrightarrow> invertRandomTable t ! k = (t ! k AND 0x0F) XOR 0x0F"
  unfolding invertRandomTable_def
  by (subst fold_update_nth [where g = "\<lambda>i t. (t ! i AND 0x0F) XOR 0x0F"]) simp_all

lemma and_0F_le: "(x :: u8) AND 0x0F \<le> 0x0F"
  by (rule word_and_le1)

lemma nibble_mask_absorb: "(((x :: u8) AND 0x0F) XOR 0x0F) AND 0x0F = (x AND 0x0F) XOR 0x0F"
  by (rule bit_word_eqI) (auto simp: bit_simps)

lemma nibble_xor_le: "((x :: u8) AND 0x0F) XOR 0x0F \<le> 0x0F"
proof -
  have "(((x AND 0x0F) XOR 0x0F) AND 0x0F) \<le> 0x0F" by (rule word_and_le1)
  then show ?thesis unfolding nibble_mask_absorb .
qed

lemma nibble_and_id: "(x :: u8) \<le> 0x0F \<Longrightarrow> x AND 0x0F = x"
proof -
  assume "x \<le> 0x0F"
  then have "x < 2 ^ 4" by (simp add: word_le_nat_alt word_less_nat_alt)
  then have "x AND mask 4 = x" by (rule less_mask_eq)
  then show ?thesis by (simp add: mask_eq_exp_minus_1)
qed

lemma nibble_double_invert:
  assumes "(x :: u8) \<le> 0x0F"
  shows "((((x AND 0x0F) XOR 0x0F) AND 0x0F) XOR 0x0F) = x"
proof -
  have "((x AND 0x0F) XOR 0x0F) XOR 0x0F = x AND 0x0F"
    by (rule bit_word_eqI) (auto simp: bit_simps)
  then show ?thesis unfolding nibble_mask_absorb using nibble_and_id [OF assms] by simp
qed
lemma ucast_and_0F: "(ucast ((w :: u16) AND 0x0F) :: u8) = ucast w AND 0x0F"
  by (rule bit_word_eqI) (auto simp: bit_simps)

lemma random_entry_le: "random_entry i \<le> 0x0F"
  unfolding random_entry_def Let_def ucast_and_0F by (rule word_and_le1)

lemma all_set_nth: "(\<forall>x \<in> set t. P x) = (\<forall>k < length t. P (t ! k))"
  by (metis in_set_conv_nth)

lemma reachable_table_length: "reachable_table t \<Longrightarrow> length t = 256"
  by (induction rule: reachable_table.induct) simp_all

text \<open>The index computed by \<^verbatim>\<open>mix8\<close> is a byte, so the table read is always in range.\<close>

lemma mix8_in_range: "length t = 256 \<Longrightarrow> unat (mix8 col row) < length t"
  using unsigned_less [of "mix8 col row", where ?'a = nat] by simp

section \<open>Claims about the pseudo-random table\<close>

text \<open>
  C7. The expected pseudo-random byte \<^verbatim>\<open>randomTable[mix8(col, row)]\<close> depends on nothing but
  the column, the row and the table contents (equal arguments give the equal byte, and the read
  is inside the 256-entry table), and on every table whose entries are 4-bit values (every
  table state a test run reaches) calling \<^verbatim>\<open>invertRandomTable()\<close> twice gives back exactly the
  table it started from.
\<close>

theorem expected_pure_and_invert_involution:
  assumes "length t = 256" and "\<forall>x \<in> set t. x \<le> 0x0F"
  shows "(\<forall>col row t' col' row'. t' = t \<and> col' = col \<and> row' = row
            \<longrightarrow> expected t' col' row' = expected t col row)
       \<and> (\<forall>col row. unat (mix8 col row) < length t)
       \<and> invertRandomTable (invertRandomTable t) = t"
proof -
  have "invertRandomTable (invertRandomTable t) = t"
  proof (rule nth_equalityI)
    show "length (invertRandomTable (invertRandomTable t)) = length t" by simp
  next
    fix k assume "k < length (invertRandomTable (invertRandomTable t))"
    then have k: "k < 256" using assms(1) by simp
    then have "t ! k \<le> 0x0F" using assms by (simp add: all_set_nth)
    then show "invertRandomTable (invertRandomTable t) ! k = t ! k"
      using k assms(1) by (simp add: invertRandomTable_nth nibble_double_invert)
  qed
  moreover have "\<forall>col row. unat (mix8 col row) < length t"
    using mix8_in_range [OF assms(1)] by blast
  ultimately show ?thesis by simp
qed

theorem expected_pure_and_invert_involution_witness:
  "length (replicate 256 (5 :: u8)) = 256
   \<and> list_all (\<lambda>x. x \<le> 0x0F) (replicate 256 (5 :: u8))
   \<and> invertRandomTable (invertRandomTable (replicate 256 5)) = replicate 256 5"
  using expected_pure_and_invert_involution [of "replicate 256 5"] by (simp add: list_all_iff)

text \<open>
  C10. After \<^verbatim>\<open>generateRandomTable()\<close> every entry of the table is at most 0x0F, and
  \<^verbatim>\<open>invertRandomTable()\<close> keeps it so: every table state reachable during a test run has 256
  entries, all of them 4-bit values.
\<close>

theorem reachable_table_nibbles:
  assumes "reachable_table t"
  shows "length t = 256 \<and> (\<forall>x \<in> set t. x \<le> 0x0F)"
  using assms
proof (induction rule: reachable_table.induct)
  case (generated t0)
  then show ?case
    by (simp add: all_set_nth generateRandomTable_nth random_entry_le)
next
  case (inverted t)
  then show ?case
    by (simp add: all_set_nth invertRandomTable_nth nibble_xor_le)
qed

theorem reachable_table_nibbles_witness:
  "reachable_table (invertRandomTable (generateRandomTable (replicate 256 0)))
   \<and> length (invertRandomTable (generateRandomTable (replicate 256 0))) = 256
   \<and> list_all (\<lambda>x. x \<le> 0x0F) (invertRandomTable (generateRandomTable (replicate 256 0)))"
proof -
  have r: "reachable_table (invertRandomTable (generateRandomTable (replicate 256 0)))"
    by (rule reachable_table.inverted, rule reachable_table.generated) simp
  show ?thesis using r reachable_table_nibbles [OF r] unfolding list_all_iff by blast
qed

section \<open>Bit-level facts about the address translation\<close>

lemma nat_cases16: "(n::nat) < 16 \<Longrightarrow> n \<in> {0,1,2,3,4,5,6,7,8,9,10,11,12,13,14,15}"
  by (simp, arith)
lemma nat_cases8: "(n::nat) < 8 \<Longrightarrow> n \<in> {0,1,2,3,4,5,6,7}"
  by (simp, arith)
lemma bit_times2: "bit ((w::'a::len word) * 2) n = (0 < n \<and> n < LENGTH('a) \<and> bit w (n - 1))"
  using bit_double_iff[of w n] by (auto simp: mult.commute bit_simps)
lemma Suc_nums: "Suc (Suc 0) = 2" "Suc (Suc (Suc 0)) = 3"
  by simp_all
lemmas bitn = bit_simps bit_times2 Suc_nums

lemma bit_GET_PB: "bit (GET_PB a) n = (n = 4 \<and> bit a 4 \<or> n = 2 \<and> bit a 3 \<or> n = 0 \<and> bit a 6)"
proof (cases "n < 16")
  case True
  then have "n \<in> {0,1,2,3,4,5,6,7,8,9,10,11,12,13,14,15}" by (rule nat_cases16)
  then show ?thesis unfolding GET_PB_def
    by (elim insertE emptyE; simp add: bitn)
next
  case False
  then show ?thesis by (auto dest: bit_imp_le_length)
qed

lemma bit_GET_PC: "bit (GET_PC a) n = (n = 4 \<and> bit a 0 \<or> n = 0 \<and> bit a 8)"
proof (cases "n < 16")
  case True
  then have "n \<in> {0,1,2,3,4,5,6,7,8,9,10,11,12,13,14,15}" by (rule nat_cases16)
  then show ?thesis unfolding GET_PC_def
    by (elim insertE emptyE; simp add: bitn)
next
  case False
  then show ?thesis by (auto dest: bit_imp_le_length)
qed

lemma bit_GET_PD: "bit (GET_PD a) n
   = (n = 6 \<and> bit a 7 \<or> n = 7 \<and> bit a 5 \<or> n = 0 \<and> bit a 2 \<or> n = 1 \<and> bit a 1)"
proof (cases "n < 16")
  case True
  then have "n \<in> {0,1,2,3,4,5,6,7,8,9,10,11,12,13,14,15}" by (rule nat_cases16)
  then show ?thesis unfolding GET_PD_def
    by (elim insertE emptyE; simp add: bitn)
next
  case False
  then show ?thesis by (auto dest: bit_imp_le_length)
qed

lemma bit_reverseTranslate:
  "bit (reverseTranslate (pb, pc, pd)) n
   = (n = 0 \<and> bit pc 4 \<or> n = 1 \<and> bit pd 1 \<or> n = 2 \<and> bit pd 0 \<or> n = 3 \<and> bit pb 2
      \<or> n = 4 \<and> bit pb 4 \<or> n = 5 \<and> bit pd 7 \<or> n = 6 \<and> bit pb 0 \<or> n = 7 \<and> bit pd 6
      \<or> n = 8 \<and> bit pc 0)"
proof (cases "n < 16")
  case True
  then have "n \<in> {0,1,2,3,4,5,6,7,8,9,10,11,12,13,14,15}" by (rule nat_cases16)
  then show ?thesis unfolding reverseTranslate_def
    by (elim insertE emptyE; simp add: bitn)
next
  case False
  then show ?thesis by (auto dest: bit_imp_le_length)
qed

lemma lut_low_nth:
  assumes "i < 32"
  shows "lut_16_low_b ! i = ucast (GET_PB (of_nat i))"
    and "lut_16_low_c ! i = ucast (GET_PC (of_nat i))"
    and "lut_16_low_d ! i = ucast (GET_PD (of_nat i))"
  using assms by (simp_all add: lut_16_low_b_def lut_16_low_c_def lut_16_low_d_def)

lemma high_args_nth: "k < 16 \<Longrightarrow> high_args ! k = push_bit 5 (of_nat k)"
proof -
  assume "k < 16"
  then have "k \<in> {0,1,2,3,4,5,6,7,8,9,10,11,12,13,14,15}" by (rule nat_cases16)
  then show ?thesis unfolding high_args_def by (elim insertE emptyE; simp)
qed

lemma high_args_length: "length high_args = 16"
  by (simp add: high_args_def)

lemma lut_high_nth:
  assumes "k < 16"
  shows "lut_16_high_b ! k = ucast (GET_PB (push_bit 5 (of_nat k)))"
    and "lut_16_high_c ! k = ucast (GET_PC (push_bit 5 (of_nat k)))"
    and "lut_16_high_d ! k = ucast (GET_PD (push_bit 5 (of_nat k)))"
  using assms
  by (simp_all add: lut_16_high_b_def lut_16_high_c_def lut_16_high_d_def
        high_args_length high_args_nth)

lemma idx_low_eq: "unat (ucast ((a::u16) AND 0x1F) :: u8) = unat (a AND 0x1F)"
proof -
  have "a AND 0x1F \<le> 0x1F" by (rule word_and_le1)
  then have "unat (a AND 0x1F) \<le> 31" by (simp add: word_le_nat_alt)
  then show ?thesis by (simp add: unsigned_ucast_eq take_bit_nat_eq_self)
qed

lemma idx_low_less: "unat ((a::u16) AND 0x1F) < 32"
proof -
  have "a AND 0x1F \<le> 0x1F" by (rule word_and_le1)
  then have "unat (a AND 0x1F) \<le> 31" by (simp add: word_le_nat_alt)
  then show ?thesis by simp
qed

lemma idx_high_less: "(a::u16) < 512 \<Longrightarrow> unat (drop_bit 5 a) < 16"
  by (simp add: unat_drop_bit_eq drop_bit_eq_div word_less_nat_alt unat_div)

lemma idx_high_eq: "(a::u16) < 512 \<Longrightarrow> unat (ucast (drop_bit 5 a) :: u8) = unat (drop_bit 5 a)"
  using idx_high_less [of a] by (simp add: unsigned_ucast_eq take_bit_nat_eq_self)

lemma split_PB: "ucast (GET_PB (a AND 0x1F)) OR ucast (GET_PB (push_bit 5 (drop_bit 5 a))) = (ucast (GET_PB a) :: u8)"
  by (rule bit_word_eqI) (auto simp: bit_GET_PB bitn)
lemma split_PC: "ucast (GET_PC (a AND 0x1F)) OR ucast (GET_PC (push_bit 5 (drop_bit 5 a))) = (ucast (GET_PC a) :: u8)"
  by (rule bit_word_eqI) (auto simp: bit_GET_PC bitn)
lemma split_PD: "ucast (GET_PD (a AND 0x1F)) OR ucast (GET_PD (push_bit 5 (drop_bit 5 a))) = (ucast (GET_PD a) :: u8)"
  by (rule bit_word_eqI) (auto simp: bit_GET_PD bitn)

lemma translate_eq:
  assumes "a < 512"
  shows "translate a = (ucast (GET_PB a), ucast (GET_PC a), ucast (GET_PD a))"
  unfolding translate_def Let_def idx_low_eq idx_high_eq [OF assms]
  by (simp add: lut_low_nth [OF idx_low_less] lut_high_nth [OF idx_high_less [OF assms]]
        split_PB split_PC split_PD)

lemma reverseTranslate_GET:
  "reverseTranslate (ucast (GET_PB a), ucast (GET_PC a), ucast (GET_PD a)) = a AND 0x1FF"
proof (rule bit_word_eqI)
  fix n assume "n < LENGTH(16)"
  then have "n < 16" by simp
  then have "n \<in> {0,1,2,3,4,5,6,7,8,9,10,11,12,13,14,15}" by (rule nat_cases16)
  then show "bit (reverseTranslate (ucast (GET_PB a), ucast (GET_PC a), ucast (GET_PD a))) n
       = bit (a AND 0x1FF) n"
    by (elim insertE emptyE; simp add: bit_reverseTranslate bit_GET_PB bit_GET_PC bit_GET_PD bitn)
qed

lemma and_1FF_id: "(a::u16) < 512 \<Longrightarrow> a AND 0x1FF = a"
proof -
  assume "a < 512"
  then have "a < 2 ^ 9" by simp
  then have "a AND mask 9 = a" by (rule less_mask_eq)
  then show ?thesis by (simp add: mask_eq_exp_minus_1)
qed

lemma lut_combined_nth: "a < 512 \<Longrightarrow> lut_combined ! unat a = MAP_COMBINED a"
  by (simp add: lut_combined_def word_less_nat_alt)

section \<open>Effects of the port-level operations\<close>

lemma bit_addr9:
  "bit (addr9 b0 b1 b2 b3 b4 b5 b6 b7 b8) n
   = (n = 0 \<and> b0 \<or> n = 1 \<and> b1 \<or> n = 2 \<and> b2 \<or> n = 3 \<and> b3 \<or> n = 4 \<and> b4
      \<or> n = 5 \<and> b5 \<or> n = 6 \<and> b6 \<or> n = 7 \<and> b7 \<or> n = 8 \<and> b8)"
proof (cases "n < 16")
  case True
  then have "n \<in> {0,1,2,3,4,5,6,7,8,9,10,11,12,13,14,15}" by (rule nat_cases16)
  then show ?thesis unfolding addr9_def
    by (elim insertE emptyE; simp add: bitn)
next
  case False
  then show ?thesis by (auto dest: bit_imp_le_length)
qed

lemma reverseTranslate_addr9:
  "reverseTranslate (pb, pc, pd)
   = addr9 (bit pc 4) (bit pd 1) (bit pd 0) (bit pb 2) (bit pb 4) (bit pd 7) (bit pb 0)
       (bit pd 6) (bit pc 0)"
  by (rule bit_word_eqI) (simp add: bit_reverseTranslate bit_addr9)

lemma addr9_bits:
  "addr9 (bit a 0) (bit a (Suc 0)) (bit a 2) (bit a 3) (bit a 4) (bit a 5) (bit a 6) (bit a 7) (bit a 8)
   = a AND 0x1FF"
proof (rule bit_word_eqI)
  fix n assume "n < LENGTH(16)"
  then have "n < 16" by simp
  then have "n \<in> {0,1,2,3,4,5,6,7,8,9,10,11,12,13,14,15}" by (rule nat_cases16)
  then show "bit (addr9 (bit a 0) (bit a (Suc 0)) (bit a 2) (bit a 3) (bit a 4) (bit a 5) (bit a 6)
      (bit a 7) (bit a 8)) n = bit (a AND 0x1FF) n"
    by (elim insertE emptyE; simp add: bit_addr9 bitn)
qed

lemmas pin_defs = RAS_def WE_def CAS_def DIN_def
lemmas pbits = bit_GET_PB bit_GET_PC bit_GET_PD bitn

subsection \<open>Effects of the control macros\<close>

lemma RAS_HIGH16_eq: "RAS_HIGH16 ch h = h\<lparr>PORTB := set_bit 1 (PORTB h)\<rparr>"
  by (simp add: RAS_HIGH16_def write_PORTB_def Let_def bitn)

lemma WE_HIGH16_eq: "WE_HIGH16 ch h = h\<lparr>PORTB := set_bit 3 (PORTB h)\<rparr>"
  by (simp add: WE_HIGH16_def write_PORTB_def Let_def bitn)

lemma CAS_HIGH16_eq: "CAS_HIGH16 ch h = h\<lparr>PORTC := set_bit 3 (PORTC h)\<rparr>"
  by (simp add: CAS_HIGH16_def write_PORTC_def Let_def bitn)

lemma PORTC_or_02_eq: "PORTC_or_02 ch h = h\<lparr>PORTC := PORTC h OR 0x02\<rparr>"
  by (auto simp add: PORTC_or_02_def write_PORTC_def Let_def bitn)

lemma PORTC_and_not_02_eq: "PORTC_and_not_02 ch h = h\<lparr>PORTC := PORTC h AND NOT 0x02\<rparr>"
  by (auto simp add: PORTC_and_not_02_def write_PORTC_def Let_def bitn)

lemma write_PORTB_quiet:
  "bit v 1 = bit (PORTB h) 1 \<Longrightarrow> bit v 3 = bit (PORTB h) 3 \<Longrightarrow> write_PORTB ch v h = h\<lparr>PORTB := v\<rparr>"
  by (auto simp add: write_PORTB_def Let_def bitn)

lemma write_PORTC_quiet:
  "bit v 3 = bit (PORTC h) 3 \<Longrightarrow> write_PORTC ch v h = h\<lparr>PORTC := v\<rparr>"
  by (auto simp add: write_PORTC_def Let_def bitn)

lemma setAddr16_Random_eq:
  assumes "a < 512"
  shows "setAddr16_Random ch a h =
     h\<lparr>PORTB := (PORTB h AND 0xEA) OR ucast (GET_PB a),
       PORTC := (PORTC h AND 0xEE) OR ucast (GET_PC a),
       PORTD := (PORTD h AND 0x3C) OR ucast (GET_PD a)\<rparr>"
proof -
  have t: "translate a = (ucast (GET_PB a), ucast (GET_PC a), ucast (GET_PD a))"
    using assms by (rule translate_eq)
  from t have lb: "lut_16_low_b ! unat (ucast (a AND 0x1F) :: u8) OR lut_16_high_b ! unat (ucast (drop_bit 5 a) :: u8) = ucast (GET_PB a)"
    and lc: "lut_16_low_c ! unat (ucast (a AND 0x1F) :: u8) OR lut_16_high_c ! unat (ucast (drop_bit 5 a) :: u8) = ucast (GET_PC a)"
    and ld: "lut_16_low_d ! unat (ucast (a AND 0x1F) :: u8) OR lut_16_high_d ! unat (ucast (drop_bit 5 a) :: u8) = ucast (GET_PD a)"
    by (simp_all add: translate_def Let_def)
  show ?thesis
    unfolding setAddr16_Random_def Let_def lb lc ld
    by (simp add: write_PORTB_quiet write_PORTC_quiet write_PORTD_def pbits)
qed


lemma reverseTranslate_unset1 [simp]:
  "reverseTranslate (unset_bit (Suc 0) pb, pc, pd) = reverseTranslate (pb, pc, pd)"
  by (simp add: reverseTranslate_addr9 bitn)

lemma reverseTranslate_unset3 [simp]:
  "reverseTranslate (pb, unset_bit 3 pc, pd) = reverseTranslate (pb, pc, pd)"
  by (simp add: reverseTranslate_addr9 bitn)

lemma RAS_LOW16_latch:
  "bit (PORTB h) 1 \<Longrightarrow> bit (PORTC h) 3 \<Longrightarrow>
   RAS_LOW16 ch h = h\<lparr>PORTB := unset_bit 1 (PORTB h),
                        row_latch := reverseTranslate (PORTB h, PORTC h, PORTD h), cbr := False,
                        cas_seen := False\<rparr>"
  by (auto simp add: RAS_LOW16_def write_PORTB_def Let_def addr_pins_def bitn)

lemma RAS_LOW16_cbr:
  "bit (PORTB h) 1 \<Longrightarrow> \<not> bit (PORTC h) 3 \<Longrightarrow>
   RAS_LOW16 ch h = h\<lparr>PORTB := unset_bit 1 (PORTB h), cbr := True, refreshes := refreshes h + 1\<rparr>"
  by (auto simp add: RAS_LOW16_def write_PORTB_def Let_def addr_pins_def bitn)

lemma WE_LOW16_quiet:
  "bit (PORTB h) 1 \<or> bit (PORTC h) 3 \<or> cbr h \<or> \<not> bit (PORTB h) 3 \<Longrightarrow>
   WE_LOW16 ch h = h\<lparr>PORTB := unset_bit 3 (PORTB h)\<rparr>"
  by (auto simp add: WE_LOW16_def write_PORTB_def Let_def addr_pins_def bitn)

lemma CAS_LOW16_write:
  "bit (PORTC h) 3 \<Longrightarrow> \<not> bit (PORTB h) 1 \<Longrightarrow> \<not> cbr h \<Longrightarrow> \<not> bit (PORTB h) 3 \<Longrightarrow>
   \<not> (nibble ch \<and> cas_seen h) \<Longrightarrow>
   CAS_LOW16 ch h = h\<lparr>PORTC := unset_bit 3 (PORTC h),
       col_latch := reverseTranslate (PORTB h, PORTC h, PORTD h), cas_seen := True,
       cells := put_cell (cells h) (rdec ch (row_latch h))
                  (cdec ch (reverseTranslate (PORTB h, PORTC h, PORTD h))) (bit (PORTC h) 1)\<rparr>"
  by (auto simp add: CAS_LOW16_def write_PORTC_def Let_def addr_pins_def store_cell_def bitn)

lemma CAS_LOW16_read:
  "bit (PORTC h) 3 \<Longrightarrow> \<not> bit (PORTB h) 1 \<Longrightarrow> \<not> cbr h \<Longrightarrow> bit (PORTB h) 3 \<Longrightarrow>
   \<not> (nibble ch \<and> cas_seen h) \<Longrightarrow>
   CAS_LOW16 ch h = h\<lparr>PORTC := unset_bit 3 (PORTC h),
       col_latch := reverseTranslate (PORTB h, PORTC h, PORTD h), cas_seen := True,
       dout := read_cell ch (cells h) (rdec ch (row_latch h))
                  (cdec ch (reverseTranslate (PORTB h, PORTC h, PORTD h)))\<rparr>"
  by (auto simp add: CAS_LOW16_def write_PORTC_def Let_def addr_pins_def store_cell_def bitn)

lemma CAS_LOW16_ras_high:
  "bit (PORTB h) 1 \<Longrightarrow> CAS_LOW16 ch h = h\<lparr>PORTC := unset_bit 3 (PORTC h)\<rparr>"
  by (auto simp add: CAS_LOW16_def write_PORTC_def Let_def addr_pins_def store_cell_def bitn)

lemma reverseTranslate_setAddr:
  "reverseTranslate ((pb AND 0xEA) OR ucast (GET_PB a), (pc AND 0xEE) OR ucast (GET_PC a),
      (pd AND 0x3C) OR ucast (GET_PD a)) = a AND 0x1FF"
  by (simp add: reverseTranslate_addr9 pbits addr9_bits)

lemmas exec_eqs = RAS_HIGH16_eq WE_HIGH16_eq CAS_HIGH16_eq PORTC_or_02_eq PORTC_and_not_02_eq
  setAddr16_Random_eq RAS_LOW16_latch WE_LOW16_quiet CAS_LOW16_write CAS_LOW16_read

lemma write16Pin_exec:
  assumes "bit (PORTB h) 1" "bit (PORTC h) 3" "row < 512" "col < 512"
  shows "cells (write16Pin ch row col d h) = put_cell (cells h) (rdec ch row) (cdec ch col) (d \<noteq> 0)"
    and "bit (PORTB (write16Pin ch row col d h)) 1"
    and "bit (PORTB (write16Pin ch row col d h)) 3"
    and "bit (PORTC (write16Pin ch row col d h)) 3"
    and "dout (write16Pin ch row col d h) = dout h"
    and "refreshes (write16Pin ch row col d h) = refreshes h"
  using assms
  by (simp_all add: write16Pin_def setAddrData_def SET_DIN_16_def Let_def exec_eqs
        reverseTranslate_addr9 addr9_bits and_1FF_id pbits)

lemma pinc_result:
  "drop_bit 2 (((x AND 0xFB) OR (if d then 4 else 0)) AND (4::u8)) = (if d then 1 else 0)"
proof (rule bit_word_eqI)
  fix n assume "n < LENGTH(8)"
  then have "n < 8" by simp
  then have "n \<in> {0,1,2,3,4,5,6,7}" by (rule nat_cases8)
  then show "bit (drop_bit 2 (((x AND 0xFB) OR (if d then 4 else 0)) AND (4::u8))) n
           = bit (if d then 1 else 0 :: u8) n"
    by (elim insertE emptyE; cases d; simp add: bitn)
qed

lemma read16Pin_exec:
  assumes "idle h" "row < 512" "col < 512"
  shows "fst (read16Pin ch row col h)
           = (if read_cell ch (cells h) (rdec ch row) (cdec ch col) then 1 else 0)"
    and "cells (snd (read16Pin ch row col h)) = cells h"
    and "idle (snd (read16Pin ch row col h))"
    and "refreshes (snd (read16Pin ch row col h)) = refreshes h"
  using assms unfolding idle_def
  by (simp_all add: read16Pin_def setAddrData_def SET_DIN_16_def Let_def exec_eqs
        reverseTranslate_addr9 addr9_bits and_1FF_id pbits PINC_def pinc_result
        del: drop_bit_and)

lemma write16Pin_idle:
  assumes "bit (PORTB h) 1" "bit (PORTC h) 3" "row < 512" "col < 512"
  shows "idle (write16Pin ch row col d h)"
  unfolding idle_def using write16Pin_exec [OF assms] by simp

lemma on_io_simps [simp]:
  "io (on_io f s) = f (io s)" "type (on_io f s) = type s"
  "randomTable (on_io f s) = randomTable s"
  "error_in_lower_half (on_io f s) = error_in_lower_half s"
  "error_in_upper_half (on_io f s) = error_in_upper_half s"
  "typeSuffix (on_io f s) = typeSuffix s"
  by (simp_all add: on_io_def)

lemma read_io_simps [simp]:
  "fst (read_io f s) = fst (f (io s))" "io (snd (read_io f s)) = snd (f (io s))"
  "type (snd (read_io f s)) = type s"
  "randomTable (snd (read_io f s)) = randomTable s"
  "error_in_lower_half (snd (read_io f s)) = error_in_lower_half s"
  "error_in_upper_half (snd (read_io f s)) = error_in_upper_half s"
  "typeSuffix (snd (read_io f s)) = typeSuffix s"
  by (simp_all add: read_io_def split_beta)

lemma read_put_cell:
  "read_cell ch (put_cell m r c d) r' c'
     = (case stuck ch r' c' of Some b \<Rightarrow> b | None \<Rightarrow> if r' = r \<and> c' = c then d else m r' c')"
  by (simp add: read_cell_def put_cell_def split: option.split)

lemma put_cell_apply:
  "put_cell m r c d r' c' = (if r' = r \<and> c' = c then d else m r' c')"
  by (simp add: put_cell_def)

lemma idle_CAS_HIGH16: "bit (PORTB h) 1 \<Longrightarrow> bit (PORTB h) 3 \<Longrightarrow> idle (CAS_HIGH16 ch h)"
  by (simp add: idle_def CAS_HIGH16_eq bitn)

lemma idleD: "idle h \<Longrightarrow> bit (PORTB h) 1" "idle h \<Longrightarrow> bit (PORTB h) 3" "idle h \<Longrightarrow> bit (PORTC h) 3"
  by (simp_all add: idle_def)

lemma idle_ready [simp]: "idle h \<Longrightarrow> ready h"
  by (simp add: idle_def ready_def)

lemma write16Pin_idle' [simp]: "ready h \<Longrightarrow> row < 512 \<Longrightarrow> col < 512 \<Longrightarrow> idle (write16Pin ch row col d h)"
  by (rule write16Pin_idle) (simp_all add: ready_def)

lemma write16Pin_cells' [simp]:
  "ready h \<Longrightarrow> row < 512 \<Longrightarrow> col < 512 \<Longrightarrow>
   cells (write16Pin ch row col d h) = put_cell (cells h) (rdec ch row) (cdec ch col) (d \<noteq> 0)"
  by (rule write16Pin_exec) (simp_all add: ready_def)

lemma write16Pin_refreshes' [simp]:
  "ready h \<Longrightarrow> row < 512 \<Longrightarrow> col < 512 \<Longrightarrow> refreshes (write16Pin ch row col d h) = refreshes h"
  by (rule write16Pin_exec) (simp_all add: ready_def)

lemmas read16Pin_simps [simp] = read16Pin_exec


lemma ramTypes_rows:
  "rows (ramTypes ! T_4164) = 256" "rows (ramTypes ! T_41256) = 512"
  "rows (ramTypes ! T_41257) = 512" "rows (ramTypes ! T_4816) = 128"
  "rows (ramTypes ! T_4532) = 128" "rows (ramTypes ! T_3732) = 128"
  by (simp_all add: ramTypes_def T_defs mk_ram_def)

lemma ramTypes_columns:
  "columns (ramTypes ! T_4164) = 256" "columns (ramTypes ! T_41256) = 512"
  "columns (ramTypes ! T_41257) = 512" "columns (ramTypes ! T_4816) = 128"
  "columns (ramTypes ! T_4532) = 256" "columns (ramTypes ! T_3732) = 256"
  by (simp_all add: ramTypes_def T_defs mk_ram_def)



lemma countBits_values:
  "countBits 63 = 6" "countBits 127 = 7" "countBits 255 = 8" "countBits 511 = 9"
  by (simp_all add: countBits_def countBits_loop.simps)


lemma forE_append:
  "forE (xs @ ys) f s = (case forE xs f s of Inl e \<Rightarrow> Inl e | Inr s' \<Rightarrow> forE ys f s')"
  by (induction xs arbitrary: s) (auto split: sum.splits)

lemma forE_pass:
  assumes "\<And>x s. x \<in> set xs \<Longrightarrow> P s \<Longrightarrow> \<exists>s'. f x s = Inr s' \<and> P s'" and "P s"
  shows "\<exists>s'. forE xs f s = Inr s' \<and> P s'"
  using assms
proof (induction xs arbitrary: s)
  case Nil
  then show ?case by simp
next
  case (Cons x xs)
  from Cons.prems obtain s1 where s1: "f x s = Inr s1" "P s1" by (meson list.set_intros(1))
  have "\<exists>s'. forE xs f s1 = Inr s' \<and> P s'"
    by (rule Cons.IH) (use Cons.prems s1 in auto)
  with s1 show ?case by simp
qed

lemma forE_upt_fail:
  assumes "b < n"
    and "\<And>i s. i < b \<Longrightarrow> P s \<Longrightarrow> \<exists>s'. f i s = Inr s' \<and> P s'"
    and "\<And>s. P s \<Longrightarrow> f b s = Inl e"
    and "P s"
  shows "forE [0..<n] f s = Inl e"
proof -
  have split: "[0..<n] = [0..<b] @ b # [Suc b..<n]"
    using assms(1) by (metis le_add1 less_imp_add_positive upt_add_eq_append upt_conv_Cons
        add_0 less_add_same_cancel1)
  obtain s1 where s1: "forE [0..<b] f s = Inr s1" "P s1"
    using forE_pass [of "[0..<b]" P f s] assms(2,4) by auto
  show ?thesis
    unfolding split forE_append using s1 assms(3) by simp
qed

lemma push_bit_1_less_512: "b < 9 \<Longrightarrow> (push_bit b 1 :: u16) < 512"
proof -
  assume "b < 9"
  then have "b \<in> {0,1,2,3,4,5,6,7,8}" by (simp, arith)
  then show ?thesis by (elim insertE emptyE; simp)
qed

lemma check_row_bit_fail:
  assumes "ready (io s)" "b < 9" "\<And>r c. stuck ch r c = None"
    and "rdec ch (push_bit b 1) = rdec ch 0" "\<not> (type s = T_4532 \<and> b = 7)"
  shows "check_row_bit ch b s = Inl (error2 (of_nat b) 1)"
  using assms push_bit_1_less_512 [OF assms(2)]
  by (simp add: check_row_bit_def Let_def split_beta read_put_cell put_cell_apply)

lemma check_row_bit_pass:
  assumes "ready (io s)" "b < 9" "\<And>r c. stuck ch r c = None"
    and "rdec ch (push_bit b 1) \<noteq> rdec ch 0"
  shows "\<exists>s'. check_row_bit ch b s = Inr s' \<and> idle (io s') \<and> type s' = type s"
  using assms push_bit_1_less_512 [OF assms(2)]
  by (simp add: check_row_bit_def Let_def split_beta read_put_cell put_cell_apply)

lemma check_col_bit_fail:
  assumes "ready (io s)" "b < 9" "test_row < 512" "\<And>r c. stuck ch r c = None"
    and "cdec ch (push_bit b 1) = cdec ch 0"
  shows "check_col_bit ch test_row b s = Inl (error2 (of_nat b + 16) 1)"
  using assms push_bit_1_less_512 [OF assms(2)]
  by (simp add: check_col_bit_def Let_def split_beta read_put_cell put_cell_apply)

lemma check_col_bit_pass:
  assumes "ready (io s)" "b < 9" "test_row < 512" "\<And>r c. stuck ch r c = None"
    and "cdec ch (push_bit b 1) \<noteq> cdec ch 0"
  shows "\<exists>s'. check_col_bit ch test_row b s = Inr s' \<and> idle (io s') \<and> type s' = type s"
  using assms push_bit_1_less_512 [OF assms(2)]
  by (simp add: check_col_bit_def Let_def split_beta read_put_cell put_cell_apply)

lemma ready_after_setup:
  "ready (WE_LOW16 ch (RAS_HIGH16 ch (CAS_HIGH16 ch h)))"
  by (simp add: ready_def CAS_HIGH16_eq RAS_HIGH16_eq WE_LOW16_quiet bitn)

lemma checkAddressing_row_fault:
  assumes no_stuck: "\<And>r c. stuck ch r c = None"
    and rb: "countBits (of_nat (rows (ramTypes ! type s) - 1)) = rb" "rb \<le> 9" "b < rb"
    and ok: "\<And>i. i < b \<Longrightarrow> rdec ch (push_bit i 1) \<noteq> rdec ch 0"
    and bad: "rdec ch (push_bit b 1) = rdec ch 0"
    and guard: "\<not> (type s = T_4532 \<and> b = 7)"
  shows "checkAddressing_16Pin ch s = Inl (error2 (of_nat b) 1)"
proof -
  define s0 where "s0 = on_io (WE_LOW16 ch) (on_io (RAS_HIGH16 ch) (on_io (CAS_HIGH16 ch) s))"
  define P where "P = (\<lambda>t :: state. ready (io t) \<and> type t = type s)"
  have P0: "P s0" by (simp add: P_def s0_def ready_after_setup)
  have pass: "\<exists>t'. check_row_bit ch i t = Inr t' \<and> P t'" if "i < b" "P t" for i t
  proof -
    have "i < 9" using that rb by simp
    then show ?thesis
      using check_row_bit_pass [of t i ch] that ok no_stuck unfolding P_def by auto
  qed
  have fail: "check_row_bit ch b t = Inl (error2 (of_nat b) 1)" if "P t" for t
  proof -
    have "b < 9" using rb by simp
    then show ?thesis
      using check_row_bit_fail [of t b ch] that bad guard no_stuck unfolding P_def by auto
  qed
  have "forE [0..<rb] (check_row_bit ch) s0 = Inl (error2 (of_nat b) 1)"
    by (rule forE_upt_fail [where P = P and b = b]) (use rb pass fail P0 in auto)
  then show ?thesis
    unfolding checkAddressing_16Pin_def Let_def rb(1) s0_def by simp
qed

lemma checkAddressing_col_fault:
  assumes no_stuck: "\<And>r c. stuck ch r c = None"
    and rb: "countBits (of_nat (rows (ramTypes ! type s) - 1)) = rb" "rb \<le> 9"
    and cb: "countBits (of_nat (columns (ramTypes ! type s) - 1)) = cb" "cb \<le> 9" "b < cb"
    and tr: "drop_bit 1 (of_nat (rows (ramTypes ! type s)) :: u16) < 512"
    and rok: "\<And>i. i < rb \<Longrightarrow> rdec ch (push_bit i 1) \<noteq> rdec ch 0"
    and ok: "\<And>i. i < b \<Longrightarrow> cdec ch (push_bit i 1) \<noteq> cdec ch 0"
    and bad: "cdec ch (push_bit b 1) = cdec ch 0"
  shows "checkAddressing_16Pin ch s = Inl (error2 (of_nat b + 16) 1)"
proof -
  define s0 where "s0 = on_io (WE_LOW16 ch) (on_io (RAS_HIGH16 ch) (on_io (CAS_HIGH16 ch) s))"
  define P where "P = (\<lambda>t :: state. ready (io t) \<and> type t = type s)"
  define test_row where "test_row = (drop_bit 1 (of_nat (rows (ramTypes ! type s))) :: u16)"
  have P0: "P s0" by (simp add: P_def s0_def ready_after_setup)
  have rpass: "\<exists>t'. check_row_bit ch i t = Inr t' \<and> P t'" if "i \<in> set [0..<rb]" "P t" for i t
  proof -
    have "i < 9" "i < rb" using that rb by simp_all
    then show ?thesis
      using check_row_bit_pass [of t i ch] that rok no_stuck unfolding P_def by auto
  qed
  obtain s1 where s1: "forE [0..<rb] (check_row_bit ch) s0 = Inr s1" "P s1"
    using forE_pass [of "[0..<rb]" P "check_row_bit ch" s0] rpass P0 by blast
  have pass: "\<exists>t'. check_col_bit ch test_row i t = Inr t' \<and> P t'" if "i < b" "P t" for i t
  proof -
    have "i < 9" using that cb by simp
    then show ?thesis
      using check_col_bit_pass [of t i test_row ch] that ok no_stuck tr
      unfolding P_def test_row_def by auto
  qed
  have fail: "check_col_bit ch test_row b t = Inl (error2 (of_nat b + 16) 1)" if "P t" for t
  proof -
    have "b < 9" using cb by simp
    then show ?thesis
      using check_col_bit_fail [of t b test_row ch] that bad no_stuck tr
      unfolding P_def test_row_def by auto
  qed
  have "forE [0..<cb] (check_col_bit ch test_row) s1 = Inl (error2 (of_nat b + 16) 1)"
    by (rule forE_upt_fail [where P = P and b = b]) (use cb pass fail s1 in auto)
  then show ?thesis
    unfolding checkAddressing_16Pin_def Let_def rb(1) cb(1) using s1
    by (simp add: s0_def test_row_def)
qed


lemma push_bit_and_mask_ne0:
  assumes "i < 16" "bit (m :: u16) i"
  shows "push_bit i 1 AND m \<noteq> 0"
proof
  assume "push_bit i 1 AND m = 0"
  then have "bit (push_bit i 1 AND m) i = bit (0 :: u16) i" by simp
  then show False using assms by (simp add: bit_simps)
qed

lemma push_bit_and_mask_not_ne0:
  assumes "i < 16" "bit (m :: u16) i" "i \<noteq> b"
  shows "push_bit i 1 AND m AND NOT (push_bit b 1) \<noteq> 0"
proof
  assume "push_bit i 1 AND m AND NOT (push_bit b 1) = 0"
  then have "bit (push_bit i 1 AND m AND NOT (push_bit b 1)) i = bit (0 :: u16) i" by simp
  then show False using assms by (simp add: bit_simps)
qed

lemma push_bit_and_not_self: "push_bit b 1 AND (m :: u16) AND NOT (push_bit b 1) = 0"
  by (rule bit_word_eqI) (auto simp: bit_simps)

lemma bit_masks:
  "i < 7 \<Longrightarrow> bit (127 :: int) i" "i < 8 \<Longrightarrow> bit (255 :: int) i" "i < 9 \<Longrightarrow> bit (511 :: int) i"
proof -
  have m: "(127 :: int) = mask 7" "(255 :: int) = mask 8" "(511 :: int) = mask 9"
    by (simp_all add: mask_eq_exp_minus_1)
  show "i < 7 \<Longrightarrow> bit (127 :: int) i" "i < 8 \<Longrightarrow> bit (255 :: int) i"
    "i < 9 \<Longrightarrow> bit (511 :: int) i"
    unfolding m by (simp_all add: bit_mask_iff)
qed

lemma stuck_chip_simps:
  "rdec (row_bit_stuck_chip b rm cm) a = a AND rm AND NOT (push_bit b 1)"
  "cdec (row_bit_stuck_chip b rm cm) a = a AND cm"
  "stuck (row_bit_stuck_chip b rm cm) r c = None"
  "rdec (col_bit_stuck_chip b rm cm) a = a AND rm"
  "cdec (col_bit_stuck_chip b rm cm) a = a AND cm AND NOT (push_bit b 1)"
  "stuck (col_bit_stuck_chip b rm cm) r c = None"
  "rdec (pin_stuck_chip b rm cm) a = a AND rm AND NOT (push_bit b 1)"
  "cdec (pin_stuck_chip b rm cm) a = a AND cm AND NOT (push_bit b 1)"
  "stuck (pin_stuck_chip b rm cm) r c = None"
  "rdec (ideal_chip rm cm) a = a AND rm"
  "cdec (ideal_chip rm cm) a = a AND cm"
  "stuck (ideal_chip rm cm) r c = None"
  by (simp_all add: row_bit_stuck_chip_def col_bit_stuck_chip_def pin_stuck_chip_def
        ideal_chip_def)

lemma T_4532_distinct:
  "T_4532 \<noteq> T_4164" "T_4532 \<noteq> T_41256" "T_4532 \<noteq> T_41257" "T_4532 \<noteq> T_4816"
  "T_4164 \<noteq> T_4532" "T_41256 \<noteq> T_4532" "T_41257 \<noteq> T_4532" "T_4816 \<noteq> T_4532"
  by (simp_all add: T_defs)

text \<open>The geometry of the sensed types: address bits, and masks that cover them.\<close>

lemma sensed_type_geometry:
  assumes "ty \<in> set sensed_types"
  obtains rb cb where
    "countBits (of_nat (rows (ramTypes ! ty) - 1)) = rb" "rb \<le> 9" "3 < rb"
    "countBits (of_nat (columns (ramTypes ! ty) - 1)) = cb" "cb \<le> 9"
    "drop_bit 1 (of_nat (rows (ramTypes ! ty)) :: u16) < 512"
    "\<And>i. i < rb \<Longrightarrow> bit (of_nat (rows (ramTypes ! ty) - 1) :: u16) i"
    "\<And>i. i < cb \<Longrightarrow> bit (of_nat (columns (ramTypes ! ty) - 1) :: u16) i"
    "ty = T_4532 \<Longrightarrow> rb \<le> 7"
proof -
  from assms consider "ty = T_4164" | "ty = T_41256" | "ty = T_41257" | "ty = T_4816" | "ty = T_4532"
    by (auto simp: sensed_types_def)
  then show thesis
  proof cases
    case 1 then show ?thesis
      by (intro that [of 8 8]) (simp_all add: ramTypes_rows ramTypes_columns countBits_values bit_masks T_4532_distinct)
  next
    case 2 then show ?thesis
      by (intro that [of 9 9]) (simp_all add: ramTypes_rows ramTypes_columns countBits_values bit_masks T_4532_distinct)
  next
    case 3 then show ?thesis
      by (intro that [of 9 9]) (simp_all add: ramTypes_rows ramTypes_columns countBits_values bit_masks T_4532_distinct)
  next
    case 4 then show ?thesis
      by (intro that [of 7 7]) (simp_all add: ramTypes_rows ramTypes_columns countBits_values bit_masks T_4532_distinct)
  next
    case 5 then show ?thesis
      by (intro that [of 7 8]) (simp_all add: ramTypes_rows ramTypes_columns countBits_values bit_masks T_4532_distinct)
  qed
qed

subsection \<open>The retention schedule of \<^verbatim>\<open>writeRow_16Pin\<close>\<close>













lemma run_event_simps [simp]:
  "run_event ch cols patNr (WriteRow r) s
     = Inr (on_io (writeRow_write ch (type s) (randomTable s) r cols) s)"
  "run_event ch cols patNr (CheckRow r) s = checkRow_16Pin ch cols r patNr 3 s"
  by (simp_all add: run_event_def)






lemma note_half_error_keeps [simp]:
  "type (note_half_error a b s) = type s" "randomTable (note_half_error a b s) = randomTable s"
  "io (note_half_error a b s) = io s"
  by (simp_all add: note_half_error_def Let_def)















lemma keeps_refl [simp]: "keeps s s" "keeps s (on_io f s)" "keeps s (note_half_error a b s)"
  by (simp_all add: keeps_def)


lemma keeps_on_io [simp]: "keeps (on_io f s) s' = keeps s s'" "keeps s (on_io f s') = keeps s s'"
  by (simp_all add: keeps_def)









section \<open>Claim about the address translation\<close>

text \<open>
  C6. For every linear address below 512 the split tables of 4.0.6 give the port pattern of
  the macros \<^verbatim>\<open>GET_PB\<close>/\<^verbatim>\<open>GET_PC\<close>/\<^verbatim>\<open>GET_PD\<close>, which is the entry of the combined table of
  3.0.1; reading the address back from the pins by the wiring of the socket returns the
  address, so distinct addresses get distinct port patterns.
\<close>

theorem translate_roundtrip:
  "(\<forall>a. a < 512 \<longrightarrow>
        reverseTranslate (translate a) = a
      \<and> translate a = (ucast (GET_PB a), ucast (GET_PC a), ucast (GET_PD a))
      \<and> translate a = (portb (lut_combined ! unat a), portc (lut_combined ! unat a),
                       portd (lut_combined ! unat a)))
   \<and> inj_on translate {a. a < 512}"
proof (intro conjI allI impI)
  fix a :: u16 assume a: "a < 512"
  show "reverseTranslate (translate a) = a"
    using a by (simp add: translate_eq reverseTranslate_GET and_1FF_id)
  show "translate a = (ucast (GET_PB a), ucast (GET_PC a), ucast (GET_PD a))"
    using a by (rule translate_eq)
  show "translate a = (portb (lut_combined ! unat a), portc (lut_combined ! unat a),
                       portd (lut_combined ! unat a))"
    using a by (simp add: translate_eq lut_combined_nth MAP_COMBINED_def GET_PB_def GET_PC_def
                  GET_PD_def)
next
  show "inj_on translate {a. a < 512}"
  proof (rule inj_onI)
    fix x y :: u16
    assume x: "x \<in> {a. a < 512}" and y: "y \<in> {a. a < 512}" and e: "translate x = translate y"
    have "x = reverseTranslate (translate x)"
      using x by (simp add: translate_eq reverseTranslate_GET and_1FF_id)
    also have "\<dots> = reverseTranslate (translate y)"
      by (simp only: e)
    also have "\<dots> = y"
      using y by (simp add: translate_eq reverseTranslate_GET and_1FF_id)
    finally show "x = y" .
  qed
qed

theorem translate_roundtrip_witness:
  "reverseTranslate (translate 300) = 300 \<and> (300 :: u16) < 512"
proof -
  have h: "(300 :: u16) < 512" by simp
  have "(300 :: u16) < 512 \<longrightarrow> reverseTranslate (translate 300) = 300
      \<and> translate 300 = (ucast (GET_PB 300), ucast (GET_PC 300), ucast (GET_PD 300))
      \<and> translate 300 = (portb (lut_combined ! unat (300 :: u16)),
            portc (lut_combined ! unat (300 :: u16)), portd (lut_combined ! unat (300 :: u16)))"
    by (rule spec [OF conjunct1 [OF translate_roundtrip]])
  then have "reverseTranslate (translate 300) = 300"
    using h by (elim impE conjE)
  then show ?thesis using h by (rule conjI)
qed

section \<open>Claims about sensing and the address check\<close>

text \<open>
  C2. On a chip whose probed cell (row 0, column 0) works, \<^verbatim>\<open>sense41256_16Pin\<close> sets the type
  by the aliasing it observes: 41256 exactly when row address 256 selects another row than
  row address 0 (the re-read of row 0 returns the 0 written first); otherwise, when rows 0
  and 256 alias, 4164 if row 128 is distinct from row 0 (A7 works), and 4532 or 4816 when
  it is not, by the column probe.
\<close>

theorem sense_decision_tree:
  assumes "idle (io s)" and "stuck ch (rdec ch 0) (cdec ch 0) = None"
  shows "map_sum id type (sense41256_16Pin ch s)
       = Inr (if rdec ch 256 \<noteq> rdec ch 0 then T_41256
              else if rdec ch 128 \<noteq> rdec ch 0 then T_4164
              else if cdec ch 128 \<noteq> cdec ch 0 then T_4532 else T_4816)"
proof -
  have i: "idle (CAS_HIGH16 ch (io s))"
    using assms(1) by (simp add: idle_def CAS_HIGH16_eq bitn)
  show ?thesis
    using i assms(2)
    by (simp add: sense41256_16Pin_def sense_step1_def Let_def split_beta read_put_cell put_cell_apply)
qed

theorem sense_decision_tree_witness:
  "map_sum id type (sense41256_16Pin (ideal_chip 0xFF 0xFF) (init_state (\<lambda>r c. False) 0 []))
     = Inr T_4164"
  using sense_decision_tree [of "init_state (\<lambda>r c. False) 0 []" "ideal_chip 0xFF 0xFF"]
  by (simp add: init_state_def init_hw_def idle_def ideal_chip_def T_defs)

text \<open>
  C5. On every type the sensing can set, \<^verbatim>\<open>checkAddressing_16Pin\<close> ends at the first defective
  address bit with the call \<^verbatim>\<open>error(b, 1)\<close> when bit \<open>b\<close> of the row address is ignored by the
  chip, and with \<^verbatim>\<open>error(b + 16, 1)\<close> when row addressing works and bit \<open>b\<close> of the column
  address is ignored. A chip whose pin A3 is stuck low (both decoders see bit 3 as 0) gives
  \<^verbatim>\<open>error(3, 1)\<close>. The result is the error call alone: nothing runs after it.
\<close>

theorem checkAddressing_reports_defective_bit:
  assumes ty: "type s \<in> set sensed_types"
  shows "(\<forall>b. b < countBits (of_nat (rows (ramTypes ! type s) - 1)) \<longrightarrow>
            checkAddressing_16Pin
              (row_bit_stuck_chip b (of_nat (rows (ramTypes ! type s) - 1))
                 (of_nat (columns (ramTypes ! type s) - 1))) s
            = Inl (ErrorCall (of_nat b) 1 (-1) (-1)))
       \<and> (\<forall>b. b < countBits (of_nat (columns (ramTypes ! type s) - 1)) \<longrightarrow>
            checkAddressing_16Pin
              (col_bit_stuck_chip b (of_nat (rows (ramTypes ! type s) - 1))
                 (of_nat (columns (ramTypes ! type s) - 1))) s
            = Inl (ErrorCall (of_nat b + 16) 1 (-1) (-1)))
       \<and> checkAddressing_16Pin
              (pin_stuck_chip 3 (of_nat (rows (ramTypes ! type s) - 1))
                 (of_nat (columns (ramTypes ! type s) - 1))) s
            = Inl (ErrorCall 3 1 (-1) (-1))"
proof -
  define rm :: u16 where "rm = of_nat (rows (ramTypes ! type s) - 1)"
  define cm :: u16 where "cm = of_nat (columns (ramTypes ! type s) - 1)"
  from ty obtain rb cb where g:
    "countBits rm = rb" "rb \<le> 9" "3 < rb" "countBits cm = cb" "cb \<le> 9"
    "drop_bit 1 (of_nat (rows (ramTypes ! type s)) :: u16) < 512"
    "\<And>i. i < rb \<Longrightarrow> bit rm i" "\<And>i. i < cb \<Longrightarrow> bit cm i"
    "type s = T_4532 \<Longrightarrow> rb \<le> 7"
    unfolding rm_def cm_def by (rule sensed_type_geometry) blast
  have row: "checkAddressing_16Pin (row_bit_stuck_chip b rm cm) s = Inl (ErrorCall (of_nat b) 1 (-1) (-1))"
    if "b < rb" for b
  proof -
    have "checkAddressing_16Pin (row_bit_stuck_chip b rm cm) s = Inl (error2 (of_nat b) 1)"
    proof (rule checkAddressing_row_fault [where rb = rb])
      show "countBits (of_nat (rows (ramTypes ! type s) - 1)) = rb" using g(1) by (simp add: rm_def)
      show "\<not> (type s = T_4532 \<and> b = 7)" using g(9) that by auto
      show "rdec (row_bit_stuck_chip b rm cm) (push_bit i 1) \<noteq> rdec (row_bit_stuck_chip b rm cm) 0"
        if "i < b" for i
        using that \<open>b < rb\<close> g(2) g(7) [of i]
        by (simp add: stuck_chip_simps push_bit_and_mask_not_ne0 del: push_bit_of_1)
    qed (use that g in \<open>simp_all add: stuck_chip_simps push_bit_and_not_self del: push_bit_of_1\<close>)
    then show ?thesis by (simp add: error2_def)
  qed
  have col: "checkAddressing_16Pin (col_bit_stuck_chip b rm cm) s = Inl (ErrorCall (of_nat b + 16) 1 (-1) (-1))"
    if "b < cb" for b
  proof -
    have "checkAddressing_16Pin (col_bit_stuck_chip b rm cm) s = Inl (error2 (of_nat b + 16) 1)"
    proof (rule checkAddressing_col_fault [where rb = rb and cb = cb])
      show "countBits (of_nat (rows (ramTypes ! type s) - 1)) = rb" using g(1) by (simp add: rm_def)
      show "countBits (of_nat (columns (ramTypes ! type s) - 1)) = cb" using g(4) by (simp add: cm_def)
      show "rdec (col_bit_stuck_chip b rm cm) (push_bit i 1) \<noteq> rdec (col_bit_stuck_chip b rm cm) 0"
        if "i < rb" for i
        using that g(2) g(7) [of i]
        by (simp add: stuck_chip_simps push_bit_and_mask_ne0 del: push_bit_of_1)
      show "cdec (col_bit_stuck_chip b rm cm) (push_bit i 1) \<noteq> cdec (col_bit_stuck_chip b rm cm) 0"
        if "i < b" for i
        using that \<open>b < cb\<close> g(5) g(8) [of i]
        by (simp add: stuck_chip_simps push_bit_and_mask_not_ne0 del: push_bit_of_1)
    qed (use that g in \<open>simp_all add: stuck_chip_simps push_bit_and_not_self del: push_bit_of_1\<close>)
    then show ?thesis by (simp add: error2_def)
  qed
  have pin: "checkAddressing_16Pin (pin_stuck_chip 3 rm cm) s = Inl (ErrorCall 3 1 (-1) (-1))"
  proof -
    have "checkAddressing_16Pin (pin_stuck_chip 3 rm cm) s = Inl (error2 (of_nat 3) 1)"
    proof (rule checkAddressing_row_fault [where rb = rb])
      show "countBits (of_nat (rows (ramTypes ! type s) - 1)) = rb" using g(1) by (simp add: rm_def)
      show "rdec (pin_stuck_chip 3 rm cm) (push_bit i 1) \<noteq> rdec (pin_stuck_chip 3 rm cm) 0"
        if "i < 3" for i
        using that g(3) g(7) [of i]
        by (simp add: stuck_chip_simps push_bit_and_mask_not_ne0 del: push_bit_of_1)
      show "rdec (pin_stuck_chip 3 rm cm) (push_bit 3 1) = rdec (pin_stuck_chip 3 rm cm) 0"
        by (simp add: stuck_chip_simps push_bit_and_not_self del: push_bit_of_1 push_bit_numeral)
    qed (use g in \<open>simp_all add: stuck_chip_simps\<close>)
    then show ?thesis by (simp add: error2_def)
  qed
  show ?thesis
    using row col pin g(1) g(4) unfolding rm_def cm_def by blast
qed

theorem checkAddressing_reports_defective_bit_witness:
  "checkAddressing_16Pin (pin_stuck_chip 3 255 255) (init_state (\<lambda>r c. False) T_4164 [])
     = Inl (ErrorCall 3 1 (-1) (-1))"
  using checkAddressing_reports_defective_bit [of "init_state (\<lambda>r c. False) T_4164 []"]
  by (simp add: init_state_def sensed_types_def ramTypes_rows ramTypes_columns)

section \<open>The pattern engine on a page-mode chip\<close>

lemma row_fill_Nil [simp]: "row_fill ch R G [] m = m"
  by (simp add: row_fill_def)

lemma row_fill_append: "row_fill ch R G (xs @ ys) m = row_fill ch R G ys (row_fill ch R G xs m)"
  by (simp add: row_fill_def)

lemma row_fill_Cons: "row_fill ch R G (x # xs) m = row_fill ch R G xs (put_cell m (rdec ch R) (cdec ch x) (G x))"
  by (simp add: row_fill_def)

lemma row_fill_frame: "r \<noteq> rdec ch R \<Longrightarrow> row_fill ch R G cs m r c = m r c"
  by (induction cs arbitrary: m) (simp_all add: row_fill_Cons put_cell_apply)

lemma row_fill_other: "c \<notin> cdec ch ` set cs \<Longrightarrow> row_fill ch R G cs m r c = m r c"
  by (induction cs arbitrary: m) (auto simp add: row_fill_Cons put_cell_apply)

lemma row_fill_get:
  assumes "\<And>a b. a \<in> set cs \<Longrightarrow> b \<in> set cs \<Longrightarrow> cdec ch a = cdec ch b \<Longrightarrow> G a = G b"
    and "c \<in> set cs"
  shows "row_fill ch R G cs m (rdec ch R) (cdec ch c) = G c"
  using assms
proof (induction cs arbitrary: m rule: rev_induct)
  case Nil
  then show ?case by simp
next
  case (snoc x xs)
  show ?case
  proof (cases "cdec ch c = cdec ch x")
    case True
    have "c \<in> set (xs @ [x])" "x \<in> set (xs @ [x])" using snoc.prems(2) by simp_all
    then have "G c = G x" using snoc.prems(1) True by blast
    then show ?thesis using True by (simp add: row_fill_append row_fill_Cons put_cell_apply)
  next
    case False
    then have "c \<in> set xs" using snoc.prems(2) by auto
    then have "row_fill ch R G xs m (rdec ch R) (cdec ch c) = G c"
      using snoc.IH snoc.prems(1) by simp
    then show ?thesis using False by (simp add: row_fill_append row_fill_Cons put_cell_apply)
  qed
qed

lemma fold_inv:
  assumes "\<And>x s. x \<in> set xs \<Longrightarrow> P s \<Longrightarrow> P (f x s)" and "P s"
  shows "P (fold f xs s)"
  using assms by (induction xs arbitrary: s) simp_all

lemma fold_cells:
  assumes "\<And>x h. x \<in> set xs \<Longrightarrow> P h \<Longrightarrow> P (f x h) \<and> pr (f x h) = row_fill ch R G (g x) (pr h)"
    and "P h"
  shows "P (fold f xs h) \<and> pr (fold f xs h) = row_fill ch R G (concat (map g xs)) (pr h)"
  using assms
proof (induction xs arbitrary: h)
  case Nil
  then show ?case by simp
next
  case (Cons x xs)
  have 1: "P (f x h)" "pr (f x h) = row_fill ch R G (g x) (pr h)"
    using Cons.prems(1) [of x h] Cons.prems(2) by simp_all
  have "P (fold f xs (f x h)) \<and> pr (fold f xs (f x h)) = row_fill ch R G (concat (map g xs)) (pr (f x h))"
    using Cons.IH [of "f x h"] Cons.prems(1) 1(1) by simp
  then show ?case by (simp add: 1 row_fill_append)
qed

lemma reverseTranslate_set3 [simp]:
  "reverseTranslate (pb, set_bit 3 pc, pd) = reverseTranslate (pb, pc, pd)"
  by (simp add: reverseTranslate_addr9 bitn)

lemma unset_set3 [simp]: "unset_bit 3 (set_bit 3 (x::u8)) = unset_bit 3 x"
  by (rule bit_word_eqI) (auto simp add: bitn)

lemma set_unset3 [simp]: "set_bit 3 (unset_bit 3 (x::u8)) = set_bit 3 x"
  by (rule bit_word_eqI) (auto simp add: bitn)

lemma unset_unset3 [simp]: "unset_bit 3 (unset_bit 3 (x::u8)) = unset_bit 3 x"
  by (rule bit_word_eqI) (auto simp add: bitn)

lemma fast_write_step:
  assumes "\<not> bit (PORTB h) 1" "\<not> bit (PORTB h) 3" "\<not> cbr h" "\<not> nibble ch"
  shows "CAS_LOW16 ch (write_PORTD ch v (CAS_HIGH16 ch h))
     = h\<lparr>PORTC := unset_bit 3 (PORTC h), PORTD := v,
         col_latch := reverseTranslate (PORTB h, PORTC h, v), cas_seen := True,
         cells := put_cell (cells h) (rdec ch (row_latch h))
                    (cdec ch (reverseTranslate (PORTB h, PORTC h, v))) (bit (PORTC h) 1)\<rparr>"
  using assms by (cases h) (simp add: CAS_HIGH16_eq write_PORTD_def CAS_LOW16_write bitn)

lemma RT_unset3_cong:
  "unset_bit 3 x = unset_bit 3 y \<Longrightarrow> reverseTranslate (pb, x, pd) = reverseTranslate (pb, y, pd)"
  by (metis reverseTranslate_unset3)

lemma bit1_unset3_cong:
  assumes "unset_bit 3 x = unset_bit 3 (y::u8)" shows "bit x 1 = bit y 1"
proof -
  have "bit x 1 = bit (unset_bit 3 x) 1" by (simp add: bitn)
  also have "\<dots> = bit (unset_bit 3 y) 1" by (simp only: assms)
  also have "\<dots> = bit y 1" by (simp add: bitn)
  finally show ?thesis .
qed

lemma concat_map_single: "concat (map (\<lambda>v. [f v]) xs) = map f xs"
  by (induction xs) simp_all

lemma fast_write_cas_cells:
  assumes w: "wr_cycle h R" and nn: "\<not> nibble ch"
    and pb: "PORTB h = pb" and pc: "unset_bit 3 (PORTC h) = unset_bit 3 pc"
    and G: "\<And>v. v \<in> set lut \<Longrightarrow> G (reverseTranslate (pb, pc, v)) = bit pc 1"
  shows "wr_cycle (fast_write_cas ch lut h) R"
    and "PORTB (fast_write_cas ch lut h) = pb"
    and "unset_bit 3 (PORTC (fast_write_cas ch lut h)) = unset_bit 3 pc"
    and "cells (fast_write_cas ch lut h)
           = row_fill ch R G (map (\<lambda>v. reverseTranslate (pb, pc, v)) lut) (cells h)"
    and "dout (fast_write_cas ch lut h) = dout h"
    and "refreshes (fast_write_cas ch lut h) = refreshes h"
proof -
  define P where "P = (\<lambda>x :: hw. wr_cycle x R \<and> PORTB x = pb \<and> unset_bit 3 (PORTC x) = unset_bit 3 pc
      \<and> dout x = dout h \<and> refreshes x = refreshes h)"
  have step: "P (CAS_LOW16 ch (write_PORTD ch v (CAS_HIGH16 ch x)))
        \<and> cells (CAS_LOW16 ch (write_PORTD ch v (CAS_HIGH16 ch x)))
            = row_fill ch R G [reverseTranslate (pb, pc, v)] (cells x)"
    if "v \<in> set lut" "P x" for v x
  proof -
    from that(2) have x: "\<not> bit (PORTB x) 1" "\<not> bit (PORTB x) 3" "\<not> cbr x" "row_latch x = R"
      "PORTB x = pb" "unset_bit 3 (PORTC x) = unset_bit 3 pc" "dout x = dout h"
      "refreshes x = refreshes h"
      by (auto simp add: P_def wr_cycle_def)
    have a: "reverseTranslate (pb, PORTC x, v) = reverseTranslate (pb, pc, v)"
      using RT_unset3_cong [OF x(6)] by simp
    have b: "bit (PORTC x) (Suc 0) = bit pc (Suc 0)" using bit1_unset3_cong [OF x(6)] by simp
    show ?thesis
      unfolding fast_write_step [OF x(1) x(2) x(3) nn]
      using x G [OF that(1)] by (simp add: P_def wr_cycle_def a b row_fill_Cons)
  qed
  have "P h" using w pb pc by (simp add: P_def)
  from fold_cells [where P = P and pr = cells and f = "\<lambda>v h. CAS_LOW16 ch (write_PORTD ch v (CAS_HIGH16 ch h))"
      and g = "\<lambda>v. [reverseTranslate (pb, pc, v)]" and xs = lut, OF step this]
  have r: "P (fast_write_cas ch lut h)"
    "cells (fast_write_cas ch lut h)
           = row_fill ch R G (map (\<lambda>v. reverseTranslate (pb, pc, v)) lut) (cells h)"
    by (simp_all add: fast_write_cas_def concat_map_single)
  from r(1) show "wr_cycle (fast_write_cas ch lut h) R"
    "PORTB (fast_write_cas ch lut h) = pb"
    "unset_bit 3 (PORTC (fast_write_cas ch lut h)) = unset_bit 3 pc"
    "dout (fast_write_cas ch lut h) = dout h"
    "refreshes (fast_write_cas ch lut h) = refreshes h"
    by (simp_all add: P_def)
  from r(2) show "cells (fast_write_cas ch lut h)
           = row_fill ch R G (map (\<lambda>v. reverseTranslate (pb, pc, v)) lut) (cells h)" .
qed

lemma pb_base_okD:
  assumes "pb_base_ok pbb"
  shows "\<not> bit pbb 0" "\<not> bit pbb 1" "\<not> bit pbb 2" "\<not> bit pbb 4"
proof -
  have "\<not> bit (pbb AND 0x17) n" for n using assms by (simp add: pb_base_ok_def)
  from this [of 0] this [of 1] this [of 2] this [of 4]
  show "\<not> bit pbb 0" "\<not> bit pbb 1" "\<not> bit pbb 2" "\<not> bit pbb 4"
    by (simp_all add: bitn)
qed

lemma pb_base_okI: "\<not> bit x 1 \<Longrightarrow> pb_base_ok (x AND 0xEA)"
  unfolding pb_base_ok_def
  by (rule bit_word_eqI) (auto simp add: bitn dest!: nat_cases8)

lemma RT_pb_base:
  "pb_base_ok pbb \<Longrightarrow> reverseTranslate (pbb OR pa, pc, pd) = reverseTranslate (pa, pc, pd)"
  by (simp add: reverseTranslate_addr9 bitn pb_base_okD)

lemma pb_addr_bits:
  assumes "pa \<in> set pb_addr"
  shows "\<not> bit pa 1" "\<not> bit pa 3"
  using assms by (auto simp add: pb_addr_def bitn)

lemma set3_id: "bit (x::u8) 3 \<Longrightarrow> set_bit 3 x = x"
  by (rule bit_word_eqI) (auto simp add: bitn)

lemma set3_of_unset3_eq:
  assumes "unset_bit 3 x = unset_bit 3 (y::u8)" "bit y 3" shows "set_bit 3 x = y"
proof -
  have "set_bit 3 x = set_bit 3 (unset_bit 3 x)" by simp
  also have "\<dots> = set_bit 3 (unset_bit 3 y)" by (simp only: assms(1))
  also have "\<dots> = y" using assms(2) by (simp add: set3_id)
  finally show ?thesis .
qed

lemma fast_write_pb_page:
  assumes w: "wr_cycle h R" and nn: "\<not> nibble ch"
    and pc: "PORTC h = pcw" "bit pcw 3" and pa: "pa \<in> set pb_addr"
    and pbb: "pb_base_ok pbb" "\<not> bit pbb 3"
    and G: "\<And>v. v \<in> set lut \<Longrightarrow> G (reverseTranslate (pa, pcw, v)) = bit pcw 1"
  shows "\<exists>h'. fast_write_pb ch False row lut pcw pa (pbb, h) = (pbb, h')
           \<and> wr_cycle h' R \<and> PORTC h' = pcw
           \<and> cells h' = row_fill ch R G (map (\<lambda>v. reverseTranslate (pa, pcw, v)) lut) (cells h)
           \<and> dout h' = dout h \<and> refreshes h' = refreshes h"
proof -
  from w have h: "\<not> bit (PORTB h) 1" "\<not> bit (PORTB h) 3" "\<not> cbr h" "row_latch h = R"
    by (auto simp add: wr_cycle_def)
  define h1 where "h1 = write_PORTB ch (pbb OR pa) h"
  have q: "bit (pbb OR pa) 1 = bit (PORTB h) 1" "bit (pbb OR pa) 3 = bit (PORTB h) 3"
    using h pb_base_okD [OF pbb(1)] pbb(2) pb_addr_bits [OF pa] by (simp_all add: bitn)
  have h1: "h1 = h\<lparr>PORTB := pbb OR pa\<rparr>"
    unfolding h1_def by (rule write_PORTB_quiet [OF q])
  have w1: "wr_cycle h1 R" using h q by (simp add: h1 wr_cycle_def)
  have G': "G (reverseTranslate (pbb OR pa, pcw, v)) = bit pcw 1" if "v \<in> set lut" for v
    using G [OF that] by (simp add: RT_pb_base [OF pbb(1)])
  note c = fast_write_cas_cells [OF w1 nn, of "pbb OR pa" pcw lut G, OF _ _ G']
  have p1: "PORTB h1 = pbb OR pa" "unset_bit 3 (PORTC h1) = unset_bit 3 pcw"
    by (simp_all add: h1 pc)
  define h2 where "h2 = fast_write_cas ch lut h1"
  have c2: "wr_cycle h2 R" "unset_bit 3 (PORTC h2) = unset_bit 3 pcw"
    "cells h2 = row_fill ch R G (map (\<lambda>v. reverseTranslate (pbb OR pa, pcw, v)) lut) (cells h1)"
    "dout h2 = dout h1" "refreshes h2 = refreshes h1"
    unfolding h2_def using c [OF p1] by simp_all
  have "fast_write_pb ch False row lut pcw pa (pbb, h) = (pbb, CAS_HIGH16 ch h2)"
    by (simp add: fast_write_pb_def h1_def h2_def Let_def)
  moreover have "wr_cycle (CAS_HIGH16 ch h2) R" using c2(1) by (simp add: CAS_HIGH16_eq wr_cycle_def)
  moreover have "PORTC (CAS_HIGH16 ch h2) = pcw"
    using set3_of_unset3_eq [OF c2(2) pc(2)] by (simp add: CAS_HIGH16_eq)
  moreover have "cells (CAS_HIGH16 ch h2)
      = row_fill ch R G (map (\<lambda>v. reverseTranslate (pa, pcw, v)) lut) (cells h)"
    using c2(3) by (simp add: CAS_HIGH16_eq h1 RT_pb_base [OF pbb(1)])
  moreover have "dout (CAS_HIGH16 ch h2) = dout h" "refreshes (CAS_HIGH16 ch h2) = refreshes h"
    using c2(4,5) by (simp_all add: CAS_HIGH16_eq h1)
  ultimately show ?thesis by blast
qed

lemma rasHandling_eq:
  assumes "row < 512" "bit (PORTC h) 3"
  shows "rasHandling_16Pin ch row h
     = h\<lparr>PORTB := unset_bit 1 ((set_bit 1 (PORTB h) AND 0xEA) OR ucast (GET_PB row)),
         PORTC := (PORTC h AND 0xEE) OR ucast (GET_PC row),
         PORTD := (PORTD h AND 0x3C) OR ucast (GET_PD row),
         row_latch := row, cbr := False, cas_seen := False\<rparr>"
  using assms
  by (cases h) (simp add: rasHandling_16Pin_def RAS_HIGH16_eq setAddr16_Random_eq RAS_LOW16_latch
      reverseTranslate_setAddr and_1FF_id pbits)

lemma rasHandling_facts:
  assumes "row < 512" "bit (PORTC h) 3"
  shows "\<not> bit (PORTB (rasHandling_16Pin ch row h)) 1"
    and "bit (PORTB (rasHandling_16Pin ch row h)) 3 = bit (PORTB h) 3"
    and "bit (PORTC (rasHandling_16Pin ch row h)) 3"
    and "bit (PORTC (rasHandling_16Pin ch row h)) 1 = bit (PORTC h) 1"
    and "row_latch (rasHandling_16Pin ch row h) = row"
    and "\<not> cbr (rasHandling_16Pin ch row h)"
    and "\<not> cas_seen (rasHandling_16Pin ch row h)"
    and "cells (rasHandling_16Pin ch row h) = cells h"
    and "dout (rasHandling_16Pin ch row h) = dout h"
    and "refreshes (rasHandling_16Pin ch row h) = refreshes h"
  using assms by (simp_all add: rasHandling_eq pbits)

lemma fast_write_pc_page:
  assumes w: "wr_cycle h R" and nn: "\<not> nibble ch"
    and pc: "bit (PORTC h) 3" "bit pcw 3" and pbb: "pb_base_ok pbb" "\<not> bit pbb 3"
    and G: "\<And>pa v. pa \<in> set pb_addr \<Longrightarrow> v \<in> set lut \<Longrightarrow> G (reverseTranslate (pa, pcw, v)) = bit pcw 1"
  shows "\<exists>h'. fast_write_pc ch False row lut pcw (pbb, h) = (pbb, h')
           \<and> wr_cycle h' R \<and> PORTC h' = pcw
           \<and> cells h' = row_fill ch R G
                 (concat (map (\<lambda>pa. map (\<lambda>v. reverseTranslate (pa, pcw, v)) lut) pb_addr)) (cells h)
           \<and> dout h' = dout h \<and> refreshes h' = refreshes h"
proof -
  define P where "P = (\<lambda>st :: u8 \<times> hw. fst st = pbb \<and> wr_cycle (snd st) R \<and> PORTC (snd st) = pcw
      \<and> dout (snd st) = dout h \<and> refreshes (snd st) = refreshes h)"
  define h1 where "h1 = write_PORTC ch pcw h"
  have h1: "h1 = h\<lparr>PORTC := pcw\<rparr>"
    unfolding h1_def using pc by (intro write_PORTC_quiet) simp
  have P1: "P (pbb, h1)" using w by (simp add: P_def h1 wr_cycle_def)
  have step: "P (fast_write_pb ch False row lut pcw pa st)
       \<and> (cells \<circ> snd) (fast_write_pb ch False row lut pcw pa st)
           = row_fill ch R G (map (\<lambda>v. reverseTranslate (pa, pcw, v)) lut) ((cells \<circ> snd) st)"
    if "pa \<in> set pb_addr" "P st" for pa st
  proof -
    obtain b x where st: "st = (b, x)" by (cases st)
    from that(2) have x: "b = pbb" "wr_cycle x R" "PORTC x = pcw" "dout x = dout h"
      "refreshes x = refreshes h"
      by (auto simp add: P_def st)
    from fast_write_pb_page [OF x(2) nn x(3) pc(2) that(1) pbb, of lut G row] G [OF that(1)]
    obtain h' where "fast_write_pb ch False row lut pcw pa (pbb, x) = (pbb, h')"
      "wr_cycle h' R" "PORTC h' = pcw"
      "cells h' = row_fill ch R G (map (\<lambda>v. reverseTranslate (pa, pcw, v)) lut) (cells x)"
      "dout h' = dout x" "refreshes h' = refreshes x"
      by blast
    then show ?thesis by (simp add: P_def st x)
  qed
  from fold_cells [where P = P and pr = "cells \<circ> snd" and f = "fast_write_pb ch False row lut pcw"
      and g = "\<lambda>pa. map (\<lambda>v. reverseTranslate (pa, pcw, v)) lut" and xs = pb_addr, OF step P1]
  have r: "P (fast_write_pc ch False row lut pcw (pbb, h))"
    "cells (snd (fast_write_pc ch False row lut pcw (pbb, h)))
       = row_fill ch R G (concat (map (\<lambda>pa. map (\<lambda>v. reverseTranslate (pa, pcw, v)) lut) pb_addr))
           (cells h)"
    by (simp_all add: fast_write_pc_def h1_def [symmetric]) (simp add: h1)
  then show ?thesis by (cases "fast_write_pc ch False row lut pcw (pbb, h)") (simp add: P_def)
qed

lemma din_cases: "din_a0_0 p = 0 \<or> din_a0_0 p = 2" "din_a0_1 p = 0 \<or> din_a0_1 p = 2"
  by (auto simp add: din_a0_0_def din_a0_1_def)

lemma pc_w_bits:
  assumes "pcw \<in> set (pc_w patNr)"
  shows "bit pcw 3" and "bit pcw 1 = bit (if bit pcw 4 then din_a0_1 patNr else din_a0_0 patNr) 1"
  using assms din_cases [of patNr] by (auto simp add: pc_w_def bitn)

lemma fast_bit_RT:
  assumes "pcw \<in> set (pc_w patNr)"
  shows "fast_bit patNr (reverseTranslate (pa, pcw, v)) = bit pcw 1"
  using pc_w_bits(2) [OF assms] by (simp add: fast_bit_def bit_reverseTranslate)

lemma fast_write_row_page:
  assumes row: "row < 512" and cas: "bit (PORTC h) 3" and nn: "\<not> nibble ch"
    and ty: "\<not> is_nibble_type ty"
    and pcs: "pcs = take (if columns (ramTypes ! ty) > 256 then 4 else 2) (pc_w patNr)"
  shows "cells (fast_write_row ch ty patNr lut row h)
           = row_fill ch row (fast_bit patNr) (fast_cols pcs lut) (cells h)"
    and "bit (PORTB (fast_write_row ch ty patNr lut row h)) 1"
    and "bit (PORTB (fast_write_row ch ty patNr lut row h)) 3"
    and "bit (PORTC (fast_write_row ch ty patNr lut row h)) 3"
    and "dout (fast_write_row ch ty patNr lut row h) = dout h"
    and "refreshes (fast_write_row ch ty patNr lut row h) = refreshes h"
proof -
  define h1 where "h1 = rasHandling_16Pin ch row h"
  note r = rasHandling_facts [OF row cas, of ch, folded h1_def]
  define h2 where "h2 = WE_LOW16 ch h1"
  have h2: "h2 = h1\<lparr>PORTB := unset_bit 3 (PORTB h1)\<rparr>"
    unfolding h2_def using r(3) by (intro WE_LOW16_quiet) simp
  have w2: "wr_cycle h2 row" using r by (simp add: h2 wr_cycle_def bitn)
  define pbb where "pbb = PORTB h2 AND 0xEA"
  have pbb: "pb_base_ok pbb" "\<not> bit pbb 3"
    unfolding pbb_def using w2 by (auto intro!: pb_base_okI simp add: wr_cycle_def bitn)
  have c2: "bit (PORTC h2) 3" using r(3) by (simp add: h2)
  define P where "P = (\<lambda>st :: u8 \<times> hw. fst st = pbb \<and> wr_cycle (snd st) row \<and> bit (PORTC (snd st)) 3
      \<and> dout (snd st) = dout h \<and> refreshes (snd st) = refreshes h)"
  have P2: "P (pbb, h2)" using w2 c2 r by (simp add: P_def h2)
  have step: "P (fast_write_pc ch False row lut pcw st)
       \<and> (cells \<circ> snd) (fast_write_pc ch False row lut pcw st)
           = row_fill ch row (fast_bit patNr)
               (concat (map (\<lambda>pa. map (\<lambda>v. reverseTranslate (pa, pcw, v)) lut) pb_addr))
               ((cells \<circ> snd) st)"
    if "pcw \<in> set pcs" "P st" for pcw st
  proof -
    obtain b x where st: "st = (b, x)" by (cases st)
    from that(2) have x: "b = pbb" "wr_cycle x row" "bit (PORTC x) 3" "dout x = dout h"
      "refreshes x = refreshes h"
      by (auto simp add: P_def st)
    have m: "pcw \<in> set (pc_w patNr)" using that(1) unfolding pcs by (rule in_set_takeD)
    from fast_write_pc_page [OF x(2) nn x(3) pc_w_bits(1) [OF m] pbb, of lut "fast_bit patNr" row]
      fast_bit_RT [OF m]
    obtain h' where "fast_write_pc ch False row lut pcw (pbb, x) = (pbb, h')"
      "wr_cycle h' row" "PORTC h' = pcw"
      "cells h' = row_fill ch row (fast_bit patNr)
         (concat (map (\<lambda>pa. map (\<lambda>v. reverseTranslate (pa, pcw, v)) lut) pb_addr)) (cells x)"
      "dout h' = dout x" "refreshes h' = refreshes x"
      by blast
    then show ?thesis using pc_w_bits(1) [OF m] by (simp add: P_def st x)
  qed
  define st3 where "st3 = fold (fast_write_pc ch False row lut) pcs (pbb, h2)"
  from fold_cells [where P = P and pr = "cells \<circ> snd" and f = "fast_write_pc ch False row lut"
      and g = "\<lambda>pcw. concat (map (\<lambda>pa. map (\<lambda>v. reverseTranslate (pa, pcw, v)) lut) pb_addr)"
      and xs = pcs, OF step P2]
  have r3: "P st3" "cells (snd st3) = row_fill ch row (fast_bit patNr) (fast_cols pcs lut) (cells h)"
    by (simp_all add: st3_def fast_cols_def h2 r)
  have eq: "fast_write_row ch ty patNr lut row h = RAS_HIGH16 ch (WE_HIGH16 ch (snd st3))"
    using ty
    by (simp add: fast_write_row_def Let_def split_beta st3_def pbb_def h2_def h1_def pcs)
  from r3(1) have x: "wr_cycle (snd st3) row" "bit (PORTC (snd st3)) 3" "dout (snd st3) = dout h"
      "refreshes (snd st3) = refreshes h"
    by (auto simp add: P_def)
  show "cells (fast_write_row ch ty patNr lut row h)
           = row_fill ch row (fast_bit patNr) (fast_cols pcs lut) (cells h)"
    by (simp add: eq RAS_HIGH16_eq WE_HIGH16_eq r3(2))
  show "bit (PORTB (fast_write_row ch ty patNr lut row h)) 1"
    "bit (PORTB (fast_write_row ch ty patNr lut row h)) 3"
    "bit (PORTC (fast_write_row ch ty patNr lut row h)) 3"
    "dout (fast_write_row ch ty patNr lut row h) = dout h"
    "refreshes (fast_write_row ch ty patNr lut row h) = refreshes h"
    using x by (simp_all add: eq RAS_HIGH16_eq WE_HIGH16_eq bitn)
qed

lemma forE_inv_last:
  assumes step: "\<And>x s. x \<in> set xs \<Longrightarrow> I s \<Longrightarrow>
      \<exists>s'. f x s = Inr s' \<and> I s' \<and> (U s \<longrightarrow> U s') \<and> (x = last xs \<longrightarrow> Q \<longrightarrow> U s')"
    and "I s"
  shows "\<exists>s'. forE xs f s = Inr s' \<and> I s' \<and> (U s \<longrightarrow> U s') \<and> (xs \<noteq> [] \<longrightarrow> Q \<longrightarrow> U s')"
  using assms
proof (induction xs arbitrary: s)
  case Nil
  then show ?case by simp
next
  case (Cons x xs)
  from Cons.prems(1) [of x s] Cons.prems(2)
  obtain s1 where s1: "f x s = Inr s1" "I s1" "U s \<longrightarrow> U s1" "x = last (x # xs) \<longrightarrow> Q \<longrightarrow> U s1"
    by auto
  show ?case
  proof (cases "xs = []")
    case True
    then show ?thesis using s1 by simp
  next
    case False
    have "\<exists>s'. forE xs f s1 = Inr s' \<and> I s' \<and> (U s1 \<longrightarrow> U s') \<and> (xs \<noteq> [] \<longrightarrow> Q \<longrightarrow> U s')"
    proof (rule Cons.IH [OF _ s1(2)])
      fix y t assume "y \<in> set xs" "I t"
      then show "\<exists>s'. f y t = Inr s' \<and> I s' \<and> (U t \<longrightarrow> U s') \<and> (y = last xs \<longrightarrow> Q \<longrightarrow> U s')"
        using Cons.prems(1) [of y t] False by auto
    qed
    then show ?thesis using s1 False by auto
  qed
qed

lemma note_half_error_fields [simp]:
  "io (note_half_error a b s) = io s" "type (note_half_error a b s) = type s"
  "randomTable (note_half_error a b s) = randomTable s"
  "typeSuffix (note_half_error a b s) = typeSuffix s"
  by (simp_all add: note_half_error_def Let_def)

lemma eq3_bit1: "(x::u8) = 3 \<Longrightarrow> bit x 1"
  by simp

lemma note_half_error_upper:
  assumes "flags_ok True s"
  shows "flags_ok True (note_half_error ru True s)"
    and "half_good_type (type (note_half_error ru True s))"
    and "\<not> both_halves_bad (note_half_error ru True s)"
    and "col_flag (note_half_error ru True s)"
proof -
  from assms have a: "type s = T_4164" "\<not> bit (error_in_lower_half s) 1"
    by (simp_all add: flags_ok_def)
  show "flags_ok True (note_half_error ru True s)"
    using a by (simp add: flags_ok_def note_half_error_def Let_def bitn)
  show "half_good_type (type (note_half_error ru True s))"
    using a by (simp add: half_good_type_def)
  show "col_flag (note_half_error ru True s)"
    by (simp add: col_flag_def note_half_error_def Let_def bitn)
  show "\<not> both_halves_bad (note_half_error ru True s)"
  proof
    assume "both_halves_bad (note_half_error ru True s)"
    then have "bit (error_in_lower_half (note_half_error ru True s)
        AND error_in_upper_half (note_half_error ru True s) AND 3) 1"
      unfolding both_halves_bad_def by (rule eq3_bit1)
    then show False using a by (simp add: note_half_error_def Let_def bitn split: if_splits)
  qed
qed

lemma and_single_bit:
  assumes "k < 8"
  shows "((x::u8) AND push_bit k 1 \<noteq> 0) = bit x k"
proof
  assume "bit x k"
  then have "bit (x AND push_bit k 1) k" using assms by (simp add: bit_simps)
  then show "x AND push_bit k 1 \<noteq> 0" by auto
next
  assume "x AND push_bit k 1 \<noteq> 0"
  then obtain n where "bit (x AND push_bit k 1) n" by (auto simp add: bit_eq_iff)
  then show "bit x k" by (auto simp add: bit_simps)
qed

lemma and_bit_ne0:
  "((x::u8) AND 0x04 \<noteq> 0) = bit x 2" "((x::u8) AND 0x02 \<noteq> 0) = bit x 1"
  "((x::u8) AND 0x40 \<noteq> 0) = bit x 6"
  using and_single_bit [of 2 x] and_single_bit [of 1 x] and_single_bit [of 6 x] by simp_all

lemma pinc_mismatch:
  "((PINC h XOR e) AND 0x04 \<noteq> 0) = (dout h \<noteq> bit e 2)"
  by (auto simp add: and_bit_ne0 PINC_def bitn)

lemma flags_on_io [simp]:
  "flags_ok hg (on_io f s) = flags_ok hg s" "col_flag (on_io f s) = col_flag s"
  by (simp_all add: flags_ok_def col_flag_def)

lemma flags_io_update [simp]:
  "flags_ok hg (s\<lparr>io := h\<rparr>) = flags_ok hg s" "col_flag (s\<lparr>io := h\<rparr>) = col_flag s"
  by (simp_all add: flags_ok_def col_flag_def)

lemma fast_read_cas_step:
  assumes inv: "rd_inv R m ty tbl hg s" and cas: "bit (PORTC (io s)) 3" and nn: "\<not> nibble ch"
    and c: "c = reverseTranslate (PORTB (io s), PORTC (io s), v)"
    and e: "bit exp 2 = G c"
    and ok: "mism ch m R G c \<Longrightarrow> hg \<and> bit v 6"
  shows "\<exists>s'. fast_read_cas ch patNr row exp v s = Inr s' \<and> rd_inv R m ty tbl hg s'
           \<and> PORTB (io s') = PORTB (io s) \<and> PORTC (io s') = PORTC (io s)
           \<and> (col_flag s \<longrightarrow> col_flag s') \<and> (mism ch m R G c \<longrightarrow> col_flag s')"
proof -
  from inv have h: "\<not> bit (PORTB (io s)) 1" "bit (PORTB (io s)) 3" "\<not> cbr (io s)"
    "row_latch (io s) = R" "cells (io s) = m" "type s = ty" "randomTable s = tbl" "flags_ok hg s"
    by (auto simp add: rd_inv_def rd_cycle_def)
  define d where "d = read_cell ch m (rdec ch R) (cdec ch c)"
  define s1 where "s1 = on_io (CAS_HIGH16 ch) (on_io (CAS_LOW16 ch) (on_io (write_PORTD ch v) s))"
  have io1: "io s1 = (io s)\<lparr>PORTD := v, col_latch := c, cas_seen := True, dout := d\<rparr>"
    unfolding s1_def using h cas nn
    by (cases "io s") (simp add: write_PORTD_def CAS_LOW16_read CAS_HIGH16_eq set3_id c d_def)
  have f1: "type s1 = ty" "randomTable s1 = tbl" "flags_ok hg s1" "col_flag s1 = col_flag s"
    using h by (simp_all add: s1_def)
  have inv1: "rd_inv R m ty tbl hg s1"
    using h f1 by (simp add: rd_inv_def rd_cycle_def io1)
  have mm: "((PINC (io s1) XOR exp) AND 0x04 \<noteq> 0) = mism ch m R G c"
    by (simp add: pinc_mismatch io1 e mism_def d_def)
  have eq: "fast_read_cas ch patNr row exp v s =
     (if mism ch m R G c then
        (let s2 = note_half_error (128 \<le> row) (PORTD (io s1) AND 0x40 \<noteq> 0) s1
         in if half_good_type (type s2) \<and> \<not> both_halves_bad s2 then Inr s2
            else Inl (error2 (of_nat (patNr + 1)) 2))
      else Inr s1)"
    unfolding fast_read_cas_def Let_def s1_def [symmetric] mm ..
  show ?thesis
  proof (cases "mism ch m R G c")
    case False
    then show ?thesis using inv1 f1 by (simp add: eq io1)
  next
    case True
    with ok have hg: "hg" "bit v 6" by simp_all
    have u: "(PORTD (io s1) AND 0x40 \<noteq> 0) = True" using hg(2) by (simp add: and_bit_ne0 io1)
    from f1(3) hg(1) have fo: "flags_ok True s1" by simp
    note n = note_half_error_upper [OF fo, of "128 \<le> row"]
    have "rd_inv R m ty tbl hg (note_half_error (128 \<le> row) True s1)"
      using inv1 n(1) hg(1) by (simp add: rd_inv_def)
    then show ?thesis using True n hg(2) by (simp add: eq Let_def io1 and_bit_ne0)
  qed
qed

lemma fast_read_pb_page:
  assumes inv: "rd_inv R m ty tbl hg s" and pc: "PORTC (io s) = pcr" "bit pcr 3"
    and nn: "\<not> nibble ch" and pa: "pa \<in> set pb_addr" and pbb: "pb_base_ok pbb" "bit pbb 3"
    and e: "\<And>v. v \<in> set lut \<Longrightarrow> bit exp 2 = G (reverseTranslate (pa, pcr, v))"
    and ok: "\<And>v. v \<in> set lut \<Longrightarrow> mism ch m R G (reverseTranslate (pa, pcr, v)) \<Longrightarrow> hg \<and> bit v 6"
  shows "\<exists>s'. fast_read_pb ch False patNr row lut pcr exp pa (pbb, s) = Inr (pbb, s')
           \<and> rd_inv R m ty tbl hg s' \<and> PORTC (io s') = pcr
           \<and> (col_flag s \<longrightarrow> col_flag s')
           \<and> (lut \<noteq> [] \<longrightarrow> mism ch m R G (reverseTranslate (pa, pcr, last lut)) \<longrightarrow> col_flag s')"
proof -
  from inv have h: "\<not> bit (PORTB (io s)) 1" "bit (PORTB (io s)) 3" "\<not> cbr (io s)"
    "row_latch (io s) = R" "cells (io s) = m" "type s = ty" "randomTable s = tbl" "flags_ok hg s"
    by (auto simp add: rd_inv_def rd_cycle_def)
  define s0 where "s0 = on_io (write_PORTB ch (pbb OR pa)) s"
  have q: "bit (pbb OR pa) 1 = bit (PORTB (io s)) 1" "bit (pbb OR pa) 3 = bit (PORTB (io s)) 3"
    using h pb_base_okD [OF pbb(1)] pbb(2) pb_addr_bits [OF pa] by (simp_all add: bitn)
  have io0: "io s0 = (io s)\<lparr>PORTB := pbb OR pa\<rparr>"
    unfolding s0_def by (simp add: write_PORTB_quiet [OF q])
  define I where "I = (\<lambda>x :: state. rd_inv R m ty tbl hg x \<and> PORTB (io x) = pbb OR pa \<and> PORTC (io x) = pcr)"
  have I0: "I s0"
    using h q pc by (simp add: I_def rd_inv_def rd_cycle_def io0) (simp add: s0_def)
  have step: "\<exists>s'. fast_read_cas ch patNr row exp v x = Inr s' \<and> I s' \<and> (col_flag x \<longrightarrow> col_flag s')
       \<and> (v = last lut \<longrightarrow> mism ch m R G (reverseTranslate (pa, pcr, last lut)) \<longrightarrow> col_flag s')"
    if "v \<in> set lut" "I x" for v x
  proof -
    from that(2) have x: "rd_inv R m ty tbl hg x" "PORTB (io x) = pbb OR pa" "PORTC (io x) = pcr"
      by (simp_all add: I_def)
    have c: "reverseTranslate (pa, pcr, v) = reverseTranslate (PORTB (io x), PORTC (io x), v)"
      by (simp add: x RT_pb_base [OF pbb(1)])
    have cas: "bit (PORTC (io x)) 3" using pc(2) x(3) by simp
    from fast_read_cas_step [where G = G and c = "reverseTranslate (pa, pcr, v)" and patNr = patNr
        and row = row, OF x(1) cas nn c e [OF that(1)] ok [OF that(1)]]
    obtain s' where "fast_read_cas ch patNr row exp v x = Inr s'" "rd_inv R m ty tbl hg s'"
      "PORTB (io s') = PORTB (io x)" "PORTC (io s') = PORTC (io x)" "col_flag x \<longrightarrow> col_flag s'"
      "mism ch m R G (reverseTranslate (pa, pcr, v)) \<longrightarrow> col_flag s'"
      by auto
    then show ?thesis using x by (auto simp add: I_def)
  qed
  from forE_inv_last [where I = I and U = col_flag and f = "fast_read_cas ch patNr row exp"
      and Q = "mism ch m R G (reverseTranslate (pa, pcr, last lut))" and xs = lut, OF step I0]
  obtain s' where s': "forE lut (fast_read_cas ch patNr row exp) s0 = Inr s'" "I s'"
    "col_flag s0 \<longrightarrow> col_flag s'"
    "lut \<noteq> [] \<longrightarrow> mism ch m R G (reverseTranslate (pa, pcr, last lut)) \<longrightarrow> col_flag s'"
    by blast
  have "fast_read_pb ch False patNr row lut pcr exp pa (pbb, s) = Inr (pbb, s')"
    using s'(1) by (simp add: fast_read_pb_def s0_def)
  moreover have "col_flag s \<longrightarrow> col_flag s'" using s'(3) by (simp add: s0_def)
  ultimately show ?thesis using s'(2,4) by (auto simp add: I_def)
qed

lemma pb_addr_eq: "pb_addr = [0x00, 0x01, 0x04, 0x05, 0x10, 0x11, 0x14, 0x15]"
  by (simp add: pb_addr_def upt_rec)

lemma fast_read_pc_page:
  assumes inv: "rd_inv R m ty tbl hg s" and pc: "bit (PORTC (io s)) 3" "bit pcr 3"
    and nn: "\<not> nibble ch" and pbb: "pb_base_ok pbb" "bit pbb 3"
    and e: "\<And>pa v. pa \<in> set pb_addr \<Longrightarrow> v \<in> set lut \<Longrightarrow> bit exp 2 = G (reverseTranslate (pa, pcr, v))"
    and ok: "\<And>pa v. pa \<in> set pb_addr \<Longrightarrow> v \<in> set lut \<Longrightarrow>
               mism ch m R G (reverseTranslate (pa, pcr, v)) \<Longrightarrow> hg \<and> bit v 6"
  shows "\<exists>s'. fast_read_pc ch False patNr row lut (pcr, exp) (pbb, s) = Inr (pbb, s')
           \<and> rd_inv R m ty tbl hg s' \<and> bit (PORTC (io s')) 3
           \<and> (col_flag s \<longrightarrow> col_flag s')
           \<and> (lut \<noteq> [] \<longrightarrow> mism ch m R G (reverseTranslate (last pb_addr, pcr, last lut)) \<longrightarrow> col_flag s')"
proof -
  define s0 where "s0 = on_io (write_PORTC ch pcr) s"
  have io0: "io s0 = (io s)\<lparr>PORTC := pcr\<rparr>"
    unfolding s0_def using pc by (simp add: write_PORTC_quiet)
  define I where "I = (\<lambda>st :: u8 \<times> state. fst st = pbb \<and> rd_inv R m ty tbl hg (snd st) \<and> PORTC (io (snd st)) = pcr)"
  have I0: "I (pbb, s0)"
    using inv by (simp add: I_def rd_inv_def rd_cycle_def io0) (simp add: s0_def)
  have step: "\<exists>st'. fast_read_pb ch False patNr row lut pcr exp pa st = Inr st' \<and> I st'
       \<and> ((col_flag \<circ> snd) st \<longrightarrow> (col_flag \<circ> snd) st')
       \<and> (pa = last pb_addr \<longrightarrow>
            (lut \<noteq> [] \<and> mism ch m R G (reverseTranslate (last pb_addr, pcr, last lut)))
              \<longrightarrow> (col_flag \<circ> snd) st')"
    if "pa \<in> set pb_addr" "I st" for pa st
  proof -
    obtain b x where st: "st = (b, x)" by (cases st)
    from that(2) have x: "b = pbb" "rd_inv R m ty tbl hg x" "PORTC (io x) = pcr"
      by (simp_all add: I_def st)
    from fast_read_pb_page [where G = G and lut = lut and patNr = patNr and row = row,
        OF x(2) x(3) pc(2) nn that(1) pbb e [OF that(1)] ok [OF that(1)]]
    obtain s' where "fast_read_pb ch False patNr row lut pcr exp pa (pbb, x) = Inr (pbb, s')"
      "rd_inv R m ty tbl hg s'" "PORTC (io s') = pcr" "col_flag x \<longrightarrow> col_flag s'"
      "lut \<noteq> [] \<longrightarrow> mism ch m R G (reverseTranslate (pa, pcr, last lut)) \<longrightarrow> col_flag s'"
      by auto
    then show ?thesis by (auto simp add: I_def st x)
  qed
  from forE_inv_last [where I = I and U = "col_flag \<circ> snd"
      and f = "fast_read_pb ch False patNr row lut pcr exp"
      and Q = "lut \<noteq> [] \<and> mism ch m R G (reverseTranslate (last pb_addr, pcr, last lut))"
      and xs = pb_addr, OF step I0]
  obtain st' where st': "forE pb_addr (fast_read_pb ch False patNr row lut pcr exp) (pbb, s0) = Inr st'"
    "I st'" "(col_flag \<circ> snd) (pbb, s0) \<longrightarrow> (col_flag \<circ> snd) st'"
    "pb_addr \<noteq> [] \<longrightarrow> (lut \<noteq> [] \<and> mism ch m R G (reverseTranslate (last pb_addr, pcr, last lut)))
       \<longrightarrow> (col_flag \<circ> snd) st'"
    by blast
  obtain b s' where bs: "st' = (b, s')" by (cases st')
  have ne: "pb_addr \<noteq> []" by (simp add: pb_addr_eq)
  have "fast_read_pc ch False patNr row lut (pcr, exp) (pbb, s) = Inr (pbb, s')"
    using st'(1,2) by (simp add: fast_read_pc_def s0_def bs I_def)
  moreover have "col_flag s \<longrightarrow> col_flag s'" using st'(3) by (simp add: s0_def bs)
  moreover have "bit (PORTC (io s')) 3" using st'(2) pc(2) by (simp add: I_def bs)
  ultimately show ?thesis using st'(2,4) ne by (auto simp add: I_def bs)
qed

lemma pc_r_exp:
  assumes "pe \<in> set (zip pc_r (exp_a0 patNr))"
  shows "bit (fst pe) 3" and "bit (snd pe) 2 = fast_bit patNr (reverseTranslate (pa, fst pe, v))"
  using assms din_cases [of patNr]
  by (auto simp add: pc_r_def exp_a0_def Let_def fast_bit_def bit_reverseTranslate bitn)

lemma fast_read_row_page:
  assumes row: "row < 512" and cas: "bit (PORTC (io s)) 3" and we: "bit (PORTB (io s)) 3"
    and nn: "\<not> nibble ch" and ty: "\<not> is_nibble_type (type s)"
    and s: "cells (io s) = m" "type s = ty" "randomTable s = tbl" "flags_ok hg s"
    and pes: "pes = take (if columns (ramTypes ! type s) > 256 then 4 else 2) (zip pc_r (exp_a0 patNr))"
    and ok: "\<And>pe pa v. pe \<in> set pes \<Longrightarrow> pa \<in> set pb_addr \<Longrightarrow> v \<in> set lut \<Longrightarrow>
               mism ch m row (fast_bit patNr) (reverseTranslate (pa, fst pe, v)) \<Longrightarrow> hg \<and> bit v 6"
  shows "\<exists>s'. fast_read_row ch patNr lut row s = Inr s' \<and> cells (io s') = m \<and> type s' = ty
           \<and> randomTable s' = tbl \<and> flags_ok hg s'
           \<and> bit (PORTB (io s')) 1 \<and> bit (PORTB (io s')) 3 \<and> bit (PORTC (io s')) 3
           \<and> (col_flag s \<longrightarrow> col_flag s')
           \<and> (lut \<noteq> [] \<longrightarrow>
                mism ch m row (fast_bit patNr) (reverseTranslate (last pb_addr, fst (last pes), last lut))
                \<longrightarrow> col_flag s')"
proof -
  define s1 where "s1 = on_io (rasHandling_16Pin ch row) (on_io (PORTC_and_not_02 ch) s)"
  have c0: "bit (PORTC (PORTC_and_not_02 ch (io s))) 3" using cas by (simp add: PORTC_and_not_02_eq bitn)
  note r = rasHandling_facts [OF row c0, of ch]
  have io1: "io s1 = rasHandling_16Pin ch row (PORTC_and_not_02 ch (io s))" by (simp add: s1_def)
  have inv1: "rd_inv row m ty tbl hg s1"
    using r we s
    by (simp add: rd_inv_def rd_cycle_def io1 PORTC_and_not_02_eq) (simp add: s1_def)
  define pbb where "pbb = PORTB (io s1) AND 0xEA"
  have pbb: "pb_base_ok pbb" "bit pbb 3"
    unfolding pbb_def using inv1 by (auto intro!: pb_base_okI simp add: rd_inv_def rd_cycle_def bitn)
  have c1: "bit (PORTC (io s1)) 3" using r(3) by (simp add: io1)
  define I where "I = (\<lambda>st :: u8 \<times> state. fst st = pbb \<and> rd_inv row m ty tbl hg (snd st)
      \<and> bit (PORTC (io (snd st))) 3)"
  have I1: "I (pbb, s1)" using inv1 c1 by (simp add: I_def)
  have pne: "pes \<noteq> []" by (simp add: pes pc_r_def exp_a0_def Let_def)
  have step: "\<exists>st'. fast_read_pc ch False patNr row lut pe st = Inr st' \<and> I st'
       \<and> ((col_flag \<circ> snd) st \<longrightarrow> (col_flag \<circ> snd) st')
       \<and> (pe = last pes \<longrightarrow>
            (lut \<noteq> [] \<and> mism ch m row (fast_bit patNr)
               (reverseTranslate (last pb_addr, fst (last pes), last lut)))
              \<longrightarrow> (col_flag \<circ> snd) st')"
    if "pe \<in> set pes" "I st" for pe st
  proof -
    obtain b x where st: "st = (b, x)" by (cases st)
    obtain pcr exp where pe: "pe = (pcr, exp)" by (cases pe)
    from that(2) have x: "b = pbb" "rd_inv row m ty tbl hg x" "bit (PORTC (io x)) 3"
      by (simp_all add: I_def st)
    have mz: "pe \<in> set (zip pc_r (exp_a0 patNr))" using that(1) unfolding pes by (rule in_set_takeD)
    have e: "bit exp 2 = fast_bit patNr (reverseTranslate (pa, pcr, v))" for pa v
      using pc_r_exp(2) [OF mz, of pa v] by (simp add: pe)
    have p3: "bit pcr 3" using pc_r_exp(1) [OF mz] by (simp add: pe)
    have ok': "hg \<and> bit v 6" if "pa \<in> set pb_addr" "v \<in> set lut"
      "mism ch m row (fast_bit patNr) (reverseTranslate (pa, pcr, v))" for pa v
      using ok [OF \<open>pe \<in> set pes\<close> that(1,2)] that(3) by (simp add: pe)
    have "\<exists>s'. fast_read_pc ch False patNr row lut (pcr, exp) (pbb, x) = Inr (pbb, s')
           \<and> rd_inv row m ty tbl hg s' \<and> bit (PORTC (io s')) 3
           \<and> (col_flag x \<longrightarrow> col_flag s')
           \<and> (lut \<noteq> [] \<longrightarrow> mism ch m row (fast_bit patNr)
                  (reverseTranslate (last pb_addr, pcr, last lut)) \<longrightarrow> col_flag s')"
    proof (rule fast_read_pc_page [where G = "fast_bit patNr", OF x(2) x(3) p3 nn pbb])
      show "bit exp 2 = fast_bit patNr (reverseTranslate (pa, pcr, v))" for pa v by (rule e)
      show "hg \<and> bit v 6" if "pa \<in> set pb_addr" "v \<in> set lut"
        "mism ch m row (fast_bit patNr) (reverseTranslate (pa, pcr, v))" for pa v
        using that by (rule ok')
    qed
    then obtain s' where s': "fast_read_pc ch False patNr row lut (pcr, exp) (pbb, x) = Inr (pbb, s')"
      "rd_inv row m ty tbl hg s'" "bit (PORTC (io s')) 3" "col_flag x \<longrightarrow> col_flag s'"
      "lut \<noteq> [] \<longrightarrow> mism ch m row (fast_bit patNr) (reverseTranslate (last pb_addr, pcr, last lut))
         \<longrightarrow> col_flag s'"
      by blast
    have "fst (last pes) = pcr" if "pe = last pes" using that pe by (metis fst_conv)
    with s' show ?thesis by (auto simp add: I_def st x pe)
  qed
  from forE_inv_last [where I = I and U = "col_flag \<circ> snd"
      and f = "fast_read_pc ch False patNr row lut"
      and Q = "lut \<noteq> [] \<and> mism ch m row (fast_bit patNr)
               (reverseTranslate (last pb_addr, fst (last pes), last lut))"
      and xs = pes, OF step I1]
  obtain st' where st': "forE pes (fast_read_pc ch False patNr row lut) (pbb, s1) = Inr st'"
    "I st'" "(col_flag \<circ> snd) (pbb, s1) \<longrightarrow> (col_flag \<circ> snd) st'"
    "pes \<noteq> [] \<longrightarrow> (lut \<noteq> [] \<and> mism ch m row (fast_bit patNr)
               (reverseTranslate (last pb_addr, fst (last pes), last lut)))
       \<longrightarrow> (col_flag \<circ> snd) st'"
    by blast
  obtain b s' where bs: "st' = (b, s')" by (cases st')
  have pbb': "pbb = PORTB (rasHandling_16Pin ch row (PORTC_and_not_02 ch (io s))) AND 0xEA"
    by (simp add: pbb_def io1)
  have eq: "fast_read_row ch patNr lut row s = Inr (on_io (RAS_HIGH16 ch) s')"
    using st'(1) ty
    by (simp add: fast_read_row_def Let_def s1_def [symmetric] pbb' [symmetric] pes [symmetric] bs)
  from st'(2) have x: "rd_inv row m ty tbl hg s'" "bit (PORTC (io s')) 3" by (simp_all add: I_def bs)
  have "col_flag s \<longrightarrow> col_flag s'" using st'(3) by (simp add: s1_def bs)
  then show ?thesis using x st'(4) pne
    by (simp add: eq rd_inv_def rd_cycle_def RAS_HIGH16_eq bs bitn)
qed

lemma page_chipD:
  assumes "page_chip hg ch"
  shows "\<not> nibble ch" and "cdec ch a = cdec ch b \<Longrightarrow> bit a 0 = bit b 0"
    and "stuck ch (rdec ch r) (cdec ch c) = Some v \<Longrightarrow> hg \<and> bit c 7"
  using assms unfolding page_chip_def by blast+

lemma of_nat_less_512: "n < 512 \<Longrightarrow> (of_nat n :: u16) < 512"
  by (simp add: word_less_nat_alt unat_of_nat)

lemma pc_r_w:
  assumes "pe \<in> set (take n (zip pc_r (exp_a0 p)))"
  shows "\<exists>pcw \<in> set (take n (pc_w p)). \<forall>pa v. reverseTranslate (pa, pcw, v) = reverseTranslate (pa, fst pe, v)"
proof -
  have len: "length (zip pc_r (exp_a0 p)) = 4" by (simp add: pc_r_def exp_a0_def Let_def)
  from assms obtain i where "i < length (take n (zip pc_r (exp_a0 p)))"
    "take n (zip pc_r (exp_a0 p)) ! i = pe"
    unfolding in_set_conv_nth by blast
  then have i: "i < 4" "i < n" "pe = zip pc_r (exp_a0 p) ! i" using len by auto
  have "pc_w p ! i \<in> set (take n (pc_w p))"
    using i(1,2) by (auto simp add: in_set_conv_nth pc_w_def intro!: exI [of _ i])
  moreover have "reverseTranslate (pa, pc_w p ! i, v) = reverseTranslate (pa, fst pe, v)" for pa v
  proof -
    from i(1) consider "i = 0" | "i = 1" | "i = 2" | "i = 3" by linarith
    then show ?thesis using din_cases [of p]
      by cases (auto simp add: i(3) pc_r_def pc_w_def exp_a0_def Let_def reverseTranslate_addr9 bitn)
  qed
  ultimately show ?thesis by blast
qed

lemma fast_cols_mem:
  "pcw \<in> set pcs \<Longrightarrow> pa \<in> set pb_addr \<Longrightarrow> v \<in> set lut \<Longrightarrow>
   reverseTranslate (pa, pcw, v) \<in> set (fast_cols pcs lut)"
  by (auto simp add: fast_cols_def)

lemma fast_row_page:
  assumes chip: "page_chip hg ch" and row: "row < 512" and cas: "bit (PORTC (io s)) 3"
    and ty: "\<not> is_nibble_type (type s)" and fl: "flags_ok hg s"
    and pes: "pes = take (if columns (ramTypes ! type s) > 256 then 4 else 2) (zip pc_r (exp_a0 patNr))"
    and cl: "clast = reverseTranslate (last pb_addr, fst (last pes), last lut)"
  shows "\<exists>s'. fast_row ch patNr lut row s = Inr s' \<and> bit (PORTC (io s')) 3 \<and> type s' = type s
           \<and> randomTable s' = randomTable s \<and> flags_ok hg s'
           \<and> (col_flag s \<longrightarrow> col_flag s')
           \<and> (lut \<noteq> [] \<longrightarrow> (\<forall>b. stuck ch (rdec ch (of_nat row)) (cdec ch clast) = Some b
                 \<longrightarrow> b \<noteq> fast_bit patNr clast \<longrightarrow> col_flag s'))"
proof -
  define R :: u16 where "R = of_nat row"
  have R: "R < 512" unfolding R_def using row by (rule of_nat_less_512)
  note nn = page_chipD(1) [OF chip]
  define n where "n = (if columns (ramTypes ! type s) > 256 then 4 else 2 :: nat)"
  define pcs where "pcs = take n (pc_w patNr)"
  define s1 where "s1 = on_io (fast_write_row ch (type s) patNr lut R) s"
  define m where "m = cells (io s1)"
  note w = fast_write_row_page [OF R cas nn ty, of pcs patNr lut, unfolded n_def [symmetric], OF pcs_def]
  have m: "m = row_fill ch R (fast_bit patNr) (fast_cols pcs lut) (cells (io s))"
    by (simp add: m_def s1_def w(1))
  have s1: "bit (PORTC (io s1)) 3" "bit (PORTB (io s1)) 3" "type s1 = type s"
    "randomTable s1 = randomTable s" "flags_ok hg s1" "col_flag s1 = col_flag s"
    using w fl by (simp_all add: s1_def)
  have cons: "fast_bit patNr a = fast_bit patNr b" if "cdec ch a = cdec ch b" for a b
    using page_chipD(2) [OF chip that] by (simp add: fast_bit_def)
  have good: "\<not> mism ch m R (fast_bit patNr) c"
    if "c \<in> set (fast_cols pcs lut)" "stuck ch (rdec ch R) (cdec ch c) = None" for c
  proof -
    have "m (rdec ch R) (cdec ch c) = fast_bit patNr c"
      unfolding m by (rule row_fill_get [OF cons that(1)])
    then show ?thesis using that(2) by (simp add: mism_def read_cell_def)
  qed
  have ok: "hg \<and> bit v 6"
    if a: "pe \<in> set pes" "pa \<in> set pb_addr" "v \<in> set lut"
      "mism ch m R (fast_bit patNr) (reverseTranslate (pa, fst pe, v))" for pe pa v
  proof -
    from pc_r_w [OF a(1) [unfolded pes n_def [symmetric]]]
    obtain pcw where pcw: "pcw \<in> set pcs"
      "reverseTranslate (pa, pcw, v) = reverseTranslate (pa, fst pe, v)"
      unfolding pcs_def by blast
    have mem: "reverseTranslate (pa, fst pe, v) \<in> set (fast_cols pcs lut)"
      using fast_cols_mem [OF pcw(1) a(2,3)] pcw(2) by simp
    obtain b where "stuck ch (rdec ch R) (cdec ch (reverseTranslate (pa, fst pe, v))) = Some b"
      using good [OF mem] a(4) by (cases "stuck ch (rdec ch R) (cdec ch (reverseTranslate (pa, fst pe, v)))") auto
    from page_chipD(3) [OF chip this] show ?thesis by (simp add: bit_reverseTranslate)
  qed
  have ty1: "\<not> is_nibble_type (type s1)" using ty s1(3) by simp
  have pes1: "pes = take (if columns (ramTypes ! type s1) > 256 then 4 else 2) (zip pc_r (exp_a0 patNr))"
    using pes s1(3) by simp
  have "\<exists>s'. fast_read_row ch patNr lut R s1 = Inr s' \<and> cells (io s') = m \<and> type s' = type s1
           \<and> randomTable s' = randomTable s1 \<and> flags_ok hg s'
           \<and> bit (PORTB (io s')) 1 \<and> bit (PORTB (io s')) 3 \<and> bit (PORTC (io s')) 3
           \<and> (col_flag s1 \<longrightarrow> col_flag s')
           \<and> (lut \<noteq> [] \<longrightarrow>
                mism ch m R (fast_bit patNr) (reverseTranslate (last pb_addr, fst (last pes), last lut))
                \<longrightarrow> col_flag s')"
  proof (rule fast_read_row_page [OF R s1(1) s1(2) nn ty1 m_def [symmetric] refl refl s1(5) pes1])
    show "hg \<and> bit v 6" if "pe \<in> set pes" "pa \<in> set pb_addr" "v \<in> set lut"
      "mism ch m R (fast_bit patNr) (reverseTranslate (pa, fst pe, v))" for pe pa v
      using that by (rule ok)
  qed
  then obtain s' where s': "fast_read_row ch patNr lut R s1 = Inr s'" "type s' = type s1"
    "randomTable s' = randomTable s1" "flags_ok hg s'" "bit (PORTC (io s')) 3"
    "col_flag s1 \<longrightarrow> col_flag s'"
    "lut \<noteq> [] \<longrightarrow> mism ch m R (fast_bit patNr) clast \<longrightarrow> col_flag s'"
    unfolding cl by blast
  have "mism ch m R (fast_bit patNr) clast"
    if "stuck ch (rdec ch R) (cdec ch clast) = Some b" "b \<noteq> fast_bit patNr clast" for b
    using that by (simp add: mism_def read_cell_def)
  with s' s1 show ?thesis by (auto simp add: fast_row_def s1_def R_def)
qed

lemma pd_lut_ne: "pd_lut b \<noteq> []"
  by (simp add: pd_lut_def)

lemma fastPatternTest_page:
  assumes chip: "page_chip hg ch" and ty: "\<not> is_nibble_type (type s)"
    and rows: "rows (ramTypes ! type s) \<le> 512" and fl: "flags_ok hg s"
    and pes: "pes = take (if columns (ramTypes ! type s) > 256 then 4 else 2) (zip pc_r (exp_a0 patNr))"
    and cl: "clast = reverseTranslate (last pb_addr, fst (last pes), last (pd_lut (PORTD (io s) AND 0x3C)))"
  shows "\<exists>s'. fastPatternTest_16Pin ch patNr s = Inr s' \<and> bit (PORTC (io s')) 3 \<and> type s' = type s
           \<and> randomTable s' = randomTable s \<and> flags_ok hg s'
           \<and> (col_flag s \<longrightarrow> col_flag s')
           \<and> (0 < rows (ramTypes ! type s) \<longrightarrow>
                (\<exists>b. stuck ch (rdec ch (of_nat (rows (ramTypes ! type s) - 1))) (cdec ch clast) = Some b
                   \<and> b \<noteq> fast_bit patNr clast) \<longrightarrow> col_flag s')"
proof -
  define n where "n = rows (ramTypes ! type s)"
  define lut where "lut = pd_lut (PORTD (io s) AND 0x3C)"
  define s0 where "s0 = on_io (CAS_HIGH16 ch) s"
  define I where "I = (\<lambda>t :: state. bit (PORTC (io t)) 3 \<and> type t = type s
      \<and> randomTable t = randomTable s \<and> flags_ok hg t)"
  define Q where "Q = (\<exists>b. stuck ch (rdec ch (of_nat (n - 1))) (cdec ch clast) = Some b
                   \<and> b \<noteq> fast_bit patNr clast)"
  have I0: "I s0" using fl by (simp add: I_def s0_def CAS_HIGH16_eq bitn)
  have step: "\<exists>t'. fast_row ch patNr lut x t = Inr t' \<and> I t' \<and> (col_flag t \<longrightarrow> col_flag t')
       \<and> (x = last [0..<n] \<longrightarrow> Q \<longrightarrow> col_flag t')"
    if "x \<in> set [0..<n]" "I t" for x t
  proof -
    from that(2) have t: "bit (PORTC (io t)) 3" "type t = type s" "randomTable t = randomTable s"
      "flags_ok hg t"
      by (simp_all add: I_def)
    have x: "x < 512" using that(1) rows by (simp add: n_def)
    have ty': "\<not> is_nibble_type (type t)" using ty t(2) by simp
    have pes': "pes = take (if columns (ramTypes ! type t) > 256 then 4 else 2) (zip pc_r (exp_a0 patNr))"
      using pes t(2) by simp
    from fast_row_page [OF chip x t(1) ty' t(4) pes' cl [folded lut_def]]
    obtain t' where t': "fast_row ch patNr lut x t = Inr t'" "bit (PORTC (io t')) 3"
      "type t' = type t" "randomTable t' = randomTable t" "flags_ok hg t'"
      "col_flag t \<longrightarrow> col_flag t'"
      "lut \<noteq> [] \<longrightarrow> (\<forall>b. stuck ch (rdec ch (of_nat x)) (cdec ch clast) = Some b
                 \<longrightarrow> b \<noteq> fast_bit patNr clast \<longrightarrow> col_flag t')"
      by blast
    have "col_flag t'" if "x = last [0..<n]" "Q"
    proof -
      have "x = n - 1" using that(1) \<open>x \<in> set [0..<n]\<close> by (cases n) simp_all
      with that(2) t'(7) show ?thesis by (auto simp add: Q_def lut_def pd_lut_ne)
    qed
    with t' t show ?thesis by (auto simp add: I_def)
  qed
  from forE_inv_last [where I = I and U = col_flag and f = "fast_row ch patNr lut" and Q = Q
      and xs = "[0..<n]", OF step I0]
  obtain s' where s': "forE [0..<n] (fast_row ch patNr lut) s0 = Inr s'" "I s'"
    "col_flag s0 \<longrightarrow> col_flag s'" "[0..<n] \<noteq> [] \<longrightarrow> Q \<longrightarrow> col_flag s'"
    by blast
  have "fastPatternTest_16Pin ch patNr s = Inr s'"
    using s'(1) by (simp add: fastPatternTest_16Pin_def Let_def n_def lut_def s0_def)
  moreover have "col_flag s \<longrightarrow> col_flag s'" using s'(3) by (simp add: s0_def)
  ultimately show ?thesis using s'(2,4) by (auto simp add: I_def Q_def n_def)
qed

lemma write_PORTC_fall_write:
  "bit (PORTC h) 3 \<Longrightarrow> \<not> bit v 3 \<Longrightarrow> \<not> bit (PORTB h) 1 \<Longrightarrow> \<not> cbr h \<Longrightarrow> \<not> bit (PORTB h) 3 \<Longrightarrow>
   \<not> (nibble ch \<and> cas_seen h) \<Longrightarrow>
   write_PORTC ch v h = h\<lparr>PORTC := v,
       col_latch := reverseTranslate (PORTB h, v, PORTD h), cas_seen := True,
       cells := put_cell (cells h) (rdec ch (row_latch h))
                  (cdec ch (reverseTranslate (PORTB h, v, PORTD h))) (bit v 1)\<rparr>"
  by (auto simp add: write_PORTC_def Let_def addr_pins_def store_cell_def bitn)

lemma unset3_id: "\<not> bit (x::u8) 3 \<Longrightarrow> unset_bit 3 x = x"
  by (rule bit_word_eqI) (auto simp add: bitn)

lemma RT_chunk:
  assumes "\<not> bit d 0" "\<not> bit d 4"
  shows "reverseTranslate
      (((x AND 0xEA) OR ucast (GET_PB (push_bit 5 k))) OR ucast (GET_PB (l AND 0x1F)),
       (((y AND 0xEC) OR ucast (GET_PC (push_bit 5 k))) OR ucast (GET_PC (l AND 0x1F))) OR d,
       ((z AND 0x3C) OR ucast (GET_PD (push_bit 5 k))) OR ucast (GET_PD (l AND 0x1F)))
     = (push_bit 5 k OR (l AND 0x1F)) AND 0x1FF"
proof -
  have "reverseTranslate
      (((x AND 0xEA) OR ucast (GET_PB (push_bit 5 k))) OR ucast (GET_PB (l AND 0x1F)),
       (((y AND 0xEC) OR ucast (GET_PC (push_bit 5 k))) OR ucast (GET_PC (l AND 0x1F))) OR d,
       ((z AND 0x3C) OR ucast (GET_PD (push_bit 5 k))) OR ucast (GET_PD (l AND 0x1F)))
     = addr9 (bit (push_bit 5 k OR (l AND 0x1F)) 0) (bit (push_bit 5 k OR (l AND 0x1F)) (Suc 0))
         (bit (push_bit 5 k OR (l AND 0x1F)) 2) (bit (push_bit 5 k OR (l AND 0x1F)) 3)
         (bit (push_bit 5 k OR (l AND 0x1F)) 4) (bit (push_bit 5 k OR (l AND 0x1F)) 5)
         (bit (push_bit 5 k OR (l AND 0x1F)) 6) (bit (push_bit 5 k OR (l AND 0x1F)) 7)
         (bit (push_bit 5 k OR (l AND 0x1F)) 8)"
    using assms by (simp add: reverseTranslate_addr9 pbits)
  then show ?thesis by (simp only: addr9_bits)
qed

lemma of_nat_high_bits:
  assumes "k < 2 ^ j" "j \<le> m"
  shows "\<not> bit (of_nat k :: u16) m"
proof -
  have "take_bit j k = k" using assms(1) by (rule take_bit_nat_eq_self)
  then have "bit k m = bit (take_bit j k) m" by simp
  also have "\<dots> = False" using assms(2) by (simp add: bit_take_bit_iff)
  finally show ?thesis by (simp add: bit_of_nat_iff)
qed

lemma of_nat_c_bits: "c < 32 \<Longrightarrow> 5 \<le> m \<Longrightarrow> \<not> bit (of_nat c :: u16) m"
  using of_nat_high_bits [of c 5 m] by simp

lemma of_nat_chunk_bits: "k < 16 \<Longrightarrow> 4 \<le> m \<Longrightarrow> \<not> bit (of_nat k :: u16) m"
  using of_nat_high_bits [of k 4 m] by simp

lemma of_nat_c_and: "c < 32 \<Longrightarrow> (of_nat c :: u16) AND 0x1F = of_nat c"
proof -
  assume "c < 32"
  then have "(of_nat c :: u16) < 2 ^ 5" by (simp add: word_less_nat_alt unat_of_nat)
  then have "(of_nat c :: u16) AND mask 5 = of_nat c" by (rule less_mask_eq)
  then show ?thesis by (simp add: mask_eq_exp_minus_1)
qed

lemma page_col_and:
  assumes "k < 16" "c < 32"
  shows "(push_bit 5 (of_nat k) OR of_nat c) AND 0x1FF = (push_bit 5 (of_nat k) OR of_nat c :: u16)"
proof (rule bit_word_eqI)
  fix n assume "n < LENGTH(16)"
  then have "n < 16" by simp
  then have "n \<in> {0,1,2,3,4,5,6,7,8,9,10,11,12,13,14,15}" by (rule nat_cases16)
  then show "bit ((push_bit 5 (of_nat k) OR of_nat c) AND 0x1FF :: u16) n
      = bit (push_bit 5 (of_nat k) OR of_nat c :: u16) n"
    using of_nat_c_bits [OF assms(2)] of_nat_chunk_bits [OF assms(1)]
    by (elim insertE emptyE; simp add: bitn)
qed

lemma RT_page:
  assumes "k < 16" "c < 32" "\<not> bit d 0" "\<not> bit d 4"
  shows "reverseTranslate
      (((x AND 0xEA) OR lut_16_high_b ! k) OR lut_16_low_b ! c,
       (((y AND 0xEC) OR lut_16_high_c ! k) OR lut_16_low_c ! c) OR d,
       ((z AND 0x3C) OR lut_16_high_d ! k) OR lut_16_low_d ! c)
     = push_bit 5 (of_nat k) OR of_nat c"
  using RT_chunk [OF assms(3,4), of x "of_nat k" "of_nat c" y z]
  by (simp add: lut_low_nth [OF assms(2)] lut_high_nth [OF assms(1)] of_nat_c_and [OF assms(2)]
      page_col_and [OF assms(1,2)])


lemma lut_low_ctl_bits:
  assumes "c < 32"
  shows "\<not> bit (lut_16_low_b ! c) 1" "\<not> bit (lut_16_low_b ! c) 3"
    "\<not> bit (lut_16_low_c ! c) 3" "\<not> bit (lut_16_low_c ! c) 1"
  by (simp_all add: lut_low_nth [OF assms] pbits)

lemma lut_high_ctl_bits:
  assumes "k < 16"
  shows "\<not> bit (lut_16_high_b ! k) 1" "\<not> bit (lut_16_high_b ! k) 3"
    "\<not> bit (lut_16_high_c ! k) 3" "\<not> bit (lut_16_high_c ! k) 1"
  by (simp_all add: lut_high_nth [OF assms] pbits)

lemma write_cas_page:
  assumes w: "wr_cycle h R" and nn: "\<not> nibble ch" and k: "chunk < 16" and c: "c < 32"
    and bb: "bb = (x AND 0xEA) OR lut_16_high_b ! chunk" "\<not> bit x 1" "\<not> bit x 3"
    and bc: "bc = (y AND 0xEC) OR lut_16_high_c ! chunk"
    and bd: "bd = (z AND 0x3C) OR lut_16_high_d ! chunk"
    and col: "col = push_bit 5 (of_nat chunk) OR of_nat c"
  shows "wr_cycle (write_cas ch tbl row bb bc bd (push_bit 5 (of_nat chunk)) c h) R"
    and "cells (write_cas ch tbl row bb bc bd (push_bit 5 (of_nat chunk)) c h)
           = put_cell (cells h) (rdec ch R) (cdec ch col) (rand_bit tbl row col)"
    and "dout (write_cas ch tbl row bb bc bd (push_bit 5 (of_nat chunk)) c h) = dout h"
    and "refreshes (write_cas ch tbl row bb bc bd (push_bit 5 (of_nat chunk)) c h) = refreshes h"
proof -
  from w have h: "\<not> bit (PORTB h) 1" "\<not> bit (PORTB h) 3" "\<not> cbr h" "row_latch h = R"
    by (auto simp add: wr_cycle_def)
  define d :: u8 where "d = (if rand_bit tbl row col then 2 else 0)"
  define vc where "vc = (bc OR lut_16_low_c ! c) OR d"
  define pb where "pb = bb OR lut_16_low_b ! c"
  define pd where "pd = bd OR lut_16_low_d ! c"
  have dd: "\<not> bit d 0" "\<not> bit d 4" "bit d 1 = rand_bit tbl row col" "\<not> bit d 3"
    by (simp_all add: d_def)
  have rt: "reverseTranslate (pb, vc, pd) = col"
    unfolding pb_def vc_def pd_def bb bc bd col by (rule RT_page [OF k c dd(1,2)])
  have v1: "bit vc 1 = rand_bit tbl row col"
    using lut_low_ctl_bits [OF c] lut_high_ctl_bits [OF k] dd by (simp add: vc_def bc bitn)
  have v1': "bit vc (Suc 0) = rand_bit tbl row col" using v1 by simp
  have v3: "bit vc 3 = bit y 3"
    using lut_low_ctl_bits [OF c] lut_high_ctl_bits [OF k] dd by (simp add: vc_def bc bitn)
  have p: "\<not> bit pb 1" "\<not> bit pb 3"
    using lut_low_ctl_bits [OF c] lut_high_ctl_bits [OF k] bb(2,3) by (simp_all add: pb_def bb(1) bitn)
  define h3 where "h3 = write_PORTD ch pd (write_PORTB ch pb (CAS_HIGH16 ch h))"
  have h3: "h3 = h\<lparr>PORTB := pb, PORTC := set_bit 3 (PORTC h), PORTD := pd\<rparr>"
    unfolding h3_def using h p
    by (cases h) (simp add: CAS_HIGH16_eq write_PORTB_quiet write_PORTD_def)
  have e: "write_cas ch tbl row bb bc bd (push_bit 5 (of_nat chunk)) c h
      = CAS_LOW16 ch (write_PORTC ch vc h3)"
    by (simp add: write_cas_def Let_def h3_def vc_def pb_def pd_def d_def col rand_bit_def
        and_bit_ne0)
  have r: "CAS_LOW16 ch (write_PORTC ch vc h3)
      = h\<lparr>PORTB := pb, PORTC := unset_bit 3 vc, PORTD := pd, col_latch := col, cas_seen := True,
           cells := put_cell (cells h) (rdec ch R) (cdec ch col) (rand_bit tbl row col)\<rparr>"
  proof (cases "bit vc 3")
    case True
    have "write_PORTC ch vc h3 = h3\<lparr>PORTC := vc\<rparr>"
      by (rule write_PORTC_quiet) (simp add: h3 True bitn)
    then show ?thesis using h p nn True
      by (cases h) (simp add: h3 CAS_LOW16_write rt v1')
  next
    case False
    have "write_PORTC ch vc h3 = h3\<lparr>PORTC := vc,
       col_latch := reverseTranslate (PORTB h3, vc, PORTD h3), cas_seen := True,
       cells := put_cell (cells h3) (rdec ch (row_latch h3))
                  (cdec ch (reverseTranslate (PORTB h3, vc, PORTD h3))) (bit vc 1)\<rparr>"
      using h p nn False by (intro write_PORTC_fall_write) (simp_all add: h3 bitn)
    moreover have "CAS_LOW16 ch t = t" if "\<not> bit (PORTC t) 3" for t
      using that by (simp add: CAS_LOW16_def write_PORTC_quiet bitn unset3_id)
    ultimately show ?thesis using h False
      by (cases h) (simp add: h3 rt v1' unset3_id)
  qed
  show "wr_cycle (write_cas ch tbl row bb bc bd (push_bit 5 (of_nat chunk)) c h) R"
    using h p by (simp add: e r wr_cycle_def)
  show "cells (write_cas ch tbl row bb bc bd (push_bit 5 (of_nat chunk)) c h)
           = put_cell (cells h) (rdec ch R) (cdec ch col) (rand_bit tbl row col)"
    "dout (write_cas ch tbl row bb bc bd (push_bit 5 (of_nat chunk)) c h) = dout h"
    "refreshes (write_cas ch tbl row bb bc bd (push_bit 5 (of_nat chunk)) c h) = refreshes h"
    by (simp_all add: e r)
qed

lemma write_chunk_page:
  assumes w: "wr_cycle h R" and nn: "\<not> nibble ch" and k: "chunk < 16"
  shows "wr_cycle (write_chunk ch tbl row chunk h) R"
    and "cells (write_chunk ch tbl row chunk h)
           = row_fill ch R (rand_bit tbl row)
               (map (\<lambda>c. push_bit 5 (of_nat chunk) OR of_nat c) (rev [0..<32])) (cells h)"
    and "dout (write_chunk ch tbl row chunk h) = dout h"
    and "refreshes (write_chunk ch tbl row chunk h) = refreshes h"
proof -
  from w have h: "\<not> bit (PORTB h) 1" "\<not> bit (PORTB h) 3" by (auto simp add: wr_cycle_def)
  define bb where "bb = (PORTB h AND 0xEA) OR lut_16_high_b ! chunk"
  define bc where "bc = (PORTC h AND 0xEC) OR lut_16_high_c ! chunk"
  define bd where "bd = (PORTD h AND 0x3C) OR lut_16_high_d ! chunk"
  define f where "f = write_cas ch tbl row bb bc bd (push_bit 5 (of_nat chunk))"
  define P where "P = (\<lambda>x :: hw. wr_cycle x R \<and> dout x = dout h \<and> refreshes x = refreshes h)"
  have step: "P (f c x) \<and> cells (f c x)
       = row_fill ch R (rand_bit tbl row) [push_bit 5 (of_nat chunk) OR of_nat c] (cells x)"
    if "c \<in> set (rev [0..<32])" "P x" for c x
  proof -
    from that(1) have c: "c < 32" by simp
    from that(2) have x: "wr_cycle x R" "dout x = dout h" "refreshes x = refreshes h"
      by (simp_all add: P_def)
    note r = write_cas_page [OF x(1) nn k c bb_def h bc_def bd_def refl, of tbl row, folded f_def]
    show ?thesis using r x by (simp add: P_def row_fill_Cons)
  qed
  have P0: "P h" using w by (simp add: P_def)
  from fold_cells [where P = P and pr = cells and f = f
      and g = "\<lambda>c. [push_bit 5 (of_nat chunk) OR of_nat c]" and xs = "rev [0..<32]", OF step P0]
  have r: "P (write_chunk ch tbl row chunk h)"
    "cells (write_chunk ch tbl row chunk h)
       = row_fill ch R (rand_bit tbl row)
           (map (\<lambda>c. push_bit 5 (of_nat chunk) OR of_nat c) (rev [0..<32])) (cells h)"
    by (simp_all add: write_chunk_def Let_def f_def bb_def bc_def bd_def concat_map_single
        del: upt.simps rev.simps)
  from r(1) show "wr_cycle (write_chunk ch tbl row chunk h) R"
    "dout (write_chunk ch tbl row chunk h) = dout h"
    "refreshes (write_chunk ch tbl row chunk h) = refreshes h"
    by (simp_all add: P_def)
  from r(2) show "cells (write_chunk ch tbl row chunk h)
           = row_fill ch R (rand_bit tbl row)
               (map (\<lambda>c. push_bit 5 (of_nat chunk) OR of_nat c) (rev [0..<32])) (cells h)" .
qed

lemma writeRow_write_page:
  assumes row: "row < 512" and ty: "\<not> is_nibble_type ty" and nn: "\<not> nibble ch"
    and n: "n = unat (ucast (drop_bit 5 cols) :: u8)" "n \<le> 16"
  shows "cells (writeRow_write ch ty tbl row cols h)
           = row_fill ch row (rand_bit tbl row) (page_cols n) (cells h)"
    and "bit (PORTB (writeRow_write ch ty tbl row cols h)) 1"
    and "bit (PORTB (writeRow_write ch ty tbl row cols h)) 3"
    and "bit (PORTC (writeRow_write ch ty tbl row cols h)) 3"
    and "dout (writeRow_write ch ty tbl row cols h) = dout h"
    and "refreshes (writeRow_write ch ty tbl row cols h) = refreshes h"
proof -
  define h1 where "h1 = rasHandling_16Pin ch row (CAS_HIGH16 ch h)"
  have c0: "bit (PORTC (CAS_HIGH16 ch h)) 3" by (simp add: CAS_HIGH16_eq bitn)
  note r = rasHandling_facts [OF row c0, of ch, folded h1_def]
  define h2 where "h2 = WE_LOW16 ch h1"
  have h2: "h2 = h1\<lparr>PORTB := unset_bit 3 (PORTB h1)\<rparr>"
    unfolding h2_def using r(3) by (intro WE_LOW16_quiet) simp
  have w2: "wr_cycle h2 row" using r by (simp add: h2 wr_cycle_def bitn)
  define P where "P = (\<lambda>x :: hw. wr_cycle x row \<and> dout x = dout h \<and> refreshes x = refreshes h)"
  have P2: "P h2" using w2 r by (simp add: P_def h2 CAS_HIGH16_eq)
  have step: "P (write_chunk ch tbl row chunk x) \<and> cells (write_chunk ch tbl row chunk x)
       = row_fill ch row (rand_bit tbl row)
           (map (\<lambda>c. push_bit 5 (of_nat chunk) OR of_nat c) (rev [0..<32])) (cells x)"
    if "chunk \<in> set [0..<n]" "P x" for chunk x
  proof -
    from that(1) n(2) have k: "chunk < 16" by simp
    from that(2) have x: "wr_cycle x row" "dout x = dout h" "refreshes x = refreshes h"
      by (simp_all add: P_def)
    show ?thesis using write_chunk_page [OF x(1) nn k, of tbl row] x by (simp add: P_def)
  qed
  define h3 where "h3 = fold (write_chunk ch tbl row) [0..<n] h2"
  from fold_cells [where P = P and pr = cells and f = "write_chunk ch tbl row"
      and g = "\<lambda>chunk. map (\<lambda>c. push_bit 5 (of_nat chunk) OR of_nat c) (rev [0..<32])"
      and xs = "[0..<n]", OF step P2]
  have r3: "P h3" "cells h3 = row_fill ch row (rand_bit tbl row) (page_cols n) (cells h)"
    by (simp_all add: h3_def page_cols_def h2 r CAS_HIGH16_eq del: upt.simps rev.simps)
  define h4 where "h4 = WE_HIGH16 ch (CAS_HIGH16 ch h3)"
  have h4: "h4 = h3\<lparr>PORTB := set_bit 3 (PORTB h3), PORTC := set_bit 3 (PORTC h3)\<rparr>"
    by (cases h3) (simp add: h4_def CAS_HIGH16_eq WE_HIGH16_eq)
  have c4: "bit (PORTC h4) 3" by (simp add: h4 bitn)
  note r5 = rasHandling_facts [OF row c4, of ch]
  have e: "writeRow_write ch ty tbl row cols h = RAS_HIGH16 ch (rasHandling_16Pin ch row h4)"
    using ty
    by (simp add: writeRow_write_def Let_def n(1) [symmetric] h1_def h2_def h3_def h4_def
        refreshRow_16Pin_def)
  from r3(1) have x: "dout h3 = dout h" "refreshes h3 = refreshes h" by (simp_all add: P_def)
  have f4: "cells h4 = cells h3" "dout h4 = dout h3" "refreshes h4 = refreshes h3"
    "bit (PORTB h4) 3"
    by (simp_all add: h4 bitn)
  show "cells (writeRow_write ch ty tbl row cols h)
           = row_fill ch row (rand_bit tbl row) (page_cols n) (cells h)"
    by (simp add: e RAS_HIGH16_eq r5 f4 r3(2))
  show "bit (PORTB (writeRow_write ch ty tbl row cols h)) 1"
    "bit (PORTB (writeRow_write ch ty tbl row cols h)) 3"
    "bit (PORTC (writeRow_write ch ty tbl row cols h)) 3"
    "dout (writeRow_write ch ty tbl row cols h) = dout h"
    "refreshes (writeRow_write ch ty tbl row cols h) = refreshes h"
    using r5 x f4 by (simp_all add: e RAS_HIGH16_eq bitn)
qed

lemma scan_acc_simps [simp]:
  "scan_acc bad [] acc = acc" "scan_acc bad (c # cs) acc = scan_acc bad cs (scan_step bad c acc)"
  "scan_acc bad (xs @ ys) acc = scan_acc bad ys (scan_acc bad xs acc)"
  by (simp_all add: scan_acc_def)











lemma bit7_ge: "bit (c :: u16) 7 \<Longrightarrow> 128 \<le> c"
proof (rule ccontr)
  assume b: "bit c 7" and "\<not> 128 \<le> c"
  then have "c < 2 ^ 7" by simp
  then have "c AND mask 7 = c" by (rule less_mask_eq)
  then have "bit c 7 = bit (c AND mask 7) 7" by simp
  also have "\<dots> = False" by (simp add: bit_and_iff bit_mask_iff)
  finally show False using b by simp
qed




section \<open>Retention staggering\<close>
















lemma forE_first_fail: "f x s = Inl e \<Longrightarrow> forE (x # xs) f s = Inl e"
  by simp




lemma both_halves_bad_io [simp]:
  "both_halves_bad (note_half_error a b (s\<lparr>io := h\<rparr>)) = both_halves_bad (note_half_error a b s)"
  by (simp add: both_halves_bad_def note_half_error_def Let_def)


section \<open>Claim C9: the error call on a pattern or retention fault\<close>




end
